theory Spec2Isabelle
  imports Complex_Main
begin

section \<open>JavaScript numbers\<close>

text \<open>
  The vision service (\<^verbatim>\<open>services/vision\<close>) computes with JavaScript numbers. A number
  is modelled as a finite real, one of the two infinities, or NaN. Rounding of IEEE
  doubles (and of the 32-bit cells of a \<^verbatim>\<open>Float32Array\<close>) is not modelled: finite
  arithmetic is exact. Signed zeros are not modelled either; a zero divisor counts as
  \<open>+0\<close>. Reading a typed array out of range gives \<^verbatim>\<open>undefined\<close>, which every use in
  this code coerces to NaN, so such a read is modelled as NaN.
\<close>

datatype jsnum = Fin real | PInf | NInf | NaN

fun jadd :: "jsnum \<Rightarrow> jsnum \<Rightarrow> jsnum" where
  "jadd (Fin a) (Fin b) = Fin (a + b)"
| "jadd NaN _ = NaN"
| "jadd _ NaN = NaN"
| "jadd PInf NInf = NaN"
| "jadd NInf PInf = NaN"
| "jadd PInf _ = PInf"
| "jadd _ PInf = PInf"
| "jadd NInf _ = NInf"
| "jadd _ NInf = NInf"

fun jneg :: "jsnum \<Rightarrow> jsnum" where
  "jneg (Fin a) = Fin (- a)"
| "jneg PInf = NInf"
| "jneg NInf = PInf"
| "jneg NaN = NaN"

fun jsign :: "real \<Rightarrow> jsnum \<Rightarrow> jsnum" where
  "jsign a v = (if a = 0 then NaN else if 0 < a then v else jneg v)"

fun jmul :: "jsnum \<Rightarrow> jsnum \<Rightarrow> jsnum" where
  "jmul (Fin a) (Fin b) = Fin (a * b)"
| "jmul NaN _ = NaN"
| "jmul _ NaN = NaN"
| "jmul (Fin a) PInf = jsign a PInf"
| "jmul (Fin a) NInf = jsign a NInf"
| "jmul PInf (Fin b) = jsign b PInf"
| "jmul NInf (Fin b) = jsign b NInf"
| "jmul PInf PInf = PInf"
| "jmul PInf NInf = NInf"
| "jmul NInf PInf = NInf"
| "jmul NInf NInf = PInf"

fun jdiv :: "jsnum \<Rightarrow> jsnum \<Rightarrow> jsnum" where
  "jdiv (Fin a) (Fin b) = (if b = 0 then jsign a PInf else Fin (a / b))"
| "jdiv NaN _ = NaN"
| "jdiv _ NaN = NaN"
| "jdiv (Fin a) PInf = Fin 0"
| "jdiv (Fin a) NInf = Fin 0"
| "jdiv PInf (Fin b) = (if 0 \<le> b then PInf else NInf)"
| "jdiv NInf (Fin b) = (if 0 \<le> b then NInf else PInf)"
| "jdiv _ _ = NaN"

fun jlt :: "jsnum \<Rightarrow> jsnum \<Rightarrow> bool" where
  "jlt (Fin a) (Fin b) = (a < b)"
| "jlt NaN _ = False"
| "jlt _ NaN = False"
| "jlt _ NInf = False"
| "jlt PInf _ = False"
| "jlt NInf _ = True"
| "jlt _ PInf = True"

fun jle :: "jsnum \<Rightarrow> jsnum \<Rightarrow> bool" where
  "jle (Fin a) (Fin b) = (a \<le> b)"
| "jle NaN _ = False"
| "jle _ NaN = False"
| "jle NInf _ = True"
| "jle _ PInf = True"
| "jle _ _ = False"

fun jabs :: "jsnum \<Rightarrow> jsnum" where
  "jabs (Fin a) = Fin \<bar>a\<bar>"
| "jabs PInf = PInf"
| "jabs NInf = PInf"
| "jabs NaN = NaN"

instantiation jsnum :: "{zero, one, plus, minus, uminus, times, inverse, abs, ord}"
begin

definition zero_jsnum_def: "0 = Fin 0"

definition one_jsnum_def: "1 = Fin 1"

definition plus_jsnum_def: "a + b = jadd a b"

definition uminus_jsnum_def: "- a = jneg a"

definition minus_jsnum_def: "a - b = jadd a (jneg b)"

definition times_jsnum_def: "a * b = jmul a b"

definition divide_jsnum_def: "a div b = jdiv a b"

definition inverse_jsnum_def: "inverse a = jdiv (Fin 1) a"

definition abs_jsnum_def: "\<bar>a\<bar> = jabs a"

definition less_jsnum_def: "a < b = jlt a b"

definition less_eq_jsnum_def: "a \<le> b = jle a b"

instance ..

end

text \<open>\<^verbatim>\<open>Math.sqrt\<close>, \<^verbatim>\<open>Math.max\<close> and \<^verbatim>\<open>Math.round\<close> (round half up).\<close>

fun Math_sqrt :: "jsnum \<Rightarrow> jsnum" where
  "Math_sqrt (Fin a) = (if a < 0 then NaN else Fin (sqrt a))"
| "Math_sqrt PInf = PInf"
| "Math_sqrt NInf = NaN"
| "Math_sqrt NaN = NaN"

fun Math_max :: "jsnum \<Rightarrow> jsnum \<Rightarrow> jsnum" where
  "Math_max NaN _ = NaN"
| "Math_max _ NaN = NaN"
| "Math_max a b = (if a < b then b else a)"

fun Math_round :: "jsnum \<Rightarrow> jsnum" where
  "Math_round (Fin a) = Fin (of_int \<lfloor>a + 1 / 2\<rfloor>)"
| "Math_round v = v"

definition num :: "int \<Rightarrow> jsnum" where
  "num i = Fin (of_int i)"


text \<open>A number that is finite or NaN (neither infinity).\<close>

definition num_or_nan :: "jsnum \<Rightarrow> bool" where
  "num_or_nan v = (v \<noteq> PInf \<and> v \<noteq> NInf)"

section \<open>Typed arrays and loops\<close>

text \<open>
  A \<^verbatim>\<open>Uint8Array\<close> or \<^verbatim>\<open>Uint8ClampedArray\<close> is a list of bytes, a \<^verbatim>\<open>Float32Array\<close> a list
  of numbers. A read out of range is \<^verbatim>\<open>undefined\<close> (NaN in arithmetic), a write out of
  range is ignored. Storing into a \<^verbatim>\<open>Uint8Array\<close> truncates and wraps modulo 256;
  storing into a \<^verbatim>\<open>Uint8ClampedArray\<close> clamps to 0..255 and rounds half to even.
\<close>

definition getU8 :: "nat list \<Rightarrow> int \<Rightarrow> jsnum" where
  "getU8 a i = (if 0 \<le> i \<and> i < int (length a) then Fin (real (a ! nat i)) else NaN)"

definition getF32 :: "jsnum list \<Rightarrow> int \<Rightarrow> jsnum" where
  "getF32 a i = (if 0 \<le> i \<and> i < int (length a) then a ! nat i else NaN)"

fun ToUint8 :: "jsnum \<Rightarrow> nat" where
  "ToUint8 (Fin a) = nat ((if a < 0 then \<lceil>a\<rceil> else \<lfloor>a\<rfloor>) mod 256)"
| "ToUint8 v = 0"

fun ToUint8Clamp :: "jsnum \<Rightarrow> nat" where
  "ToUint8Clamp (Fin a) =
     (if a \<le> 0 then 0 else if 255 \<le> a then 255
      else let f = \<lfloor>a\<rfloor>; r = a - of_int f
           in nat (if r < 1 / 2 then f else if 1 / 2 < r then f + 1
                   else if even f then f else f + 1))"
| "ToUint8Clamp PInf = 255"
| "ToUint8Clamp v = 0"

definition setU8 :: "nat list \<Rightarrow> int \<Rightarrow> jsnum \<Rightarrow> nat list" where
  "setU8 a i v = (if 0 \<le> i \<and> i < int (length a) then a[nat i := ToUint8 v] else a)"

definition setU8C :: "nat list \<Rightarrow> int \<Rightarrow> jsnum \<Rightarrow> nat list" where
  "setU8C a i v = (if 0 \<le> i \<and> i < int (length a) then a[nat i := ToUint8Clamp v] else a)"

definition setF32 :: "jsnum list \<Rightarrow> int \<Rightarrow> jsnum \<Rightarrow> jsnum list" where
  "setF32 a i v = (if 0 \<le> i \<and> i < int (length a) then a[nat i := v] else a)"

datatype error = NoContext | BadCanvasSize | RangeError

text \<open>\<^verbatim>\<open>target.set(source)\<close>: a \<^verbatim>\<open>RangeError\<close> when the source is longer than the target.\<close>

definition typedSet :: "'a list \<Rightarrow> 'a list \<Rightarrow> error + 'a list" where
  "typedSet target source =
     (if length target < length source then Inl RangeError
      else Inr (source @ drop (length source) target))"

text \<open>
  \<^verbatim>\<open>for (let i = lo; i < hi; i += step) s = body(i, s)\<close>. Every loop of the source
  steps by the literal 1 or 2, so the guard on \<open>step\<close> holds at every call.
\<close>

function for_loop :: "int \<Rightarrow> int \<Rightarrow> int \<Rightarrow> (int \<Rightarrow> 's \<Rightarrow> 's) \<Rightarrow> 's \<Rightarrow> 's" where
  "for_loop i hi step body s =
     (if i < hi \<and> 0 < step then for_loop (i + step) hi step body (body i s) else s)"
  by pat_completeness auto
termination
  by (relation "measure (\<lambda>(i, hi, step, body, s). nat (hi - i))") auto

declare for_loop.simps [simp del]

section \<open>Settings and frames\<close>

record Settings =
  ALIGNMENT_DOWNSAMPLE :: nat
  SEARCH_WINDOW :: nat
  SHARPNESS_THRESHOLD :: real
  CROP_RATIO :: real
  DRIFT_DEADBAND :: real
  FINGERPRINT_SIZE :: nat

text \<open>
  \<^verbatim>\<open>SETTINGS\<close> is a module-level object that every function reads; the model passes it
  as the first argument, and \<open>SETTINGS\<close> is the object as the source initialises it.
\<close>

definition SETTINGS :: Settings where
  "SETTINGS = \<lparr>ALIGNMENT_DOWNSAMPLE = 128, SEARCH_WINDOW = 40, SHARPNESS_THRESHOLD = 20,
     CROP_RATIO = 0.6, DRIFT_DEADBAND = 0.8, FINGERPRINT_SIZE = 16\<rparr>"

record ImageData =
  width :: nat
  height :: nat
  data :: "nat list"

text \<open>
  The browser's canvas (\<^verbatim>\<open>OffscreenCanvas\<close>, \<^verbatim>\<open>drawImage\<close>, \<^verbatim>\<open>getImageData\<close>) is not code
  of this repository: it is a parameter. Given the source frame, the crop rectangle
  \<open>(cropX, cropY, cropW, cropH)\<close> and the target size, it gives the RGBA bytes read
  back from the target, or \<open>None\<close> when the canvas fails (the source throws
  \<^verbatim>\<open>"No context"\<close> when it gets no 2D context). A target height that is not a finite
  non-negative number is no canvas size: \<open>BadCanvasSize\<close>.
\<close>

type_synonym Canvas =
  "ImageData \<Rightarrow> jsnum \<times> jsnum \<times> jsnum \<times> jsnum \<Rightarrow> nat \<Rightarrow> nat \<Rightarrow> nat list option"

section \<open>Preprocessing\<close>

definition resizeAndCropImageData ::
  "Settings \<Rightarrow> Canvas \<Rightarrow> ImageData \<Rightarrow> nat \<Rightarrow> error + ImageData" where
  "resizeAndCropImageData st canvas src targetWidth =
     (let cropW = num (int (width src)) * Fin (CROP_RATIO st);
          cropH = num (int (height src)) * Fin (CROP_RATIO st);
          cropX = (num (int (width src)) - cropW) / Fin 2;
          cropY = (num (int (height src)) - cropH) / Fin 2;
          ratio = num (int targetWidth) / cropW;
          targetHeight = Math_round (cropH * ratio)
      in case targetHeight of
           Fin th \<Rightarrow>
             if th < 0 then Inl BadCanvasSize
             else (case canvas src (cropX, cropY, cropW, cropH) targetWidth (nat \<lfloor>th\<rfloor>) of
                     None \<Rightarrow> Inl NoContext
                   | Some d \<Rightarrow> Inr \<lparr>width = targetWidth, height = nat \<lfloor>th\<rfloor>, data = d\<rparr>)
         | _ \<Rightarrow> Inl BadCanvasSize)"

definition toGrayscale :: "ImageData \<Rightarrow> nat list" where
  "toGrayscale d =
     (let gray = replicate (width d * height d) 0
      in for_loop 0 (int (length gray)) 1
           (\<lambda>i gray. setU8 gray i
              (Fin 0.299 * getU8 (data d) (i * 4) + Fin 0.587 * getU8 (data d) (i * 4 + 1)
                 + Fin 0.114 * getU8 (data d) (i * 4 + 2)))
           gray)"

definition fastBlur :: "nat list \<Rightarrow> nat \<Rightarrow> nat \<Rightarrow> nat list" where
  "fastBlur pixels wd ht =
     for_loop 1 (int ht - 1) 1
       (\<lambda>y. for_loop 1 (int wd - 1) 1
          (\<lambda>x output.
             let idx = y * int wd + x;
                 sum =
                   getU8 pixels (idx - int wd - 1) + getU8 pixels (idx - int wd)
                     + getU8 pixels (idx - int wd + 1)
                     + getU8 pixels (idx - 1) + getU8 pixels idx + getU8 pixels (idx + 1)
                     + getU8 pixels (idx + int wd - 1) + getU8 pixels (idx + int wd)
                     + getU8 pixels (idx + int wd + 1)
             in setU8 output idx (sum / Fin 9)))
       (replicate (length pixels) 0)"

definition computeEdgeMap :: "nat list \<Rightarrow> nat \<Rightarrow> nat \<Rightarrow> jsnum list" where
  "computeEdgeMap pixels wd ht =
     for_loop 1 (int ht - 1) 1
       (\<lambda>y. for_loop 1 (int wd - 1) 1
          (\<lambda>x edges.
             let idx = y * int wd + x;
                 gx =
                   Fin (- 1) * getU8 pixels (idx - int wd - 1)
                     + Fin 1 * getU8 pixels (idx - int wd + 1)
                     + Fin (- 2) * getU8 pixels (idx - 1) + Fin 2 * getU8 pixels (idx + 1)
                     + Fin (- 1) * getU8 pixels (idx + int wd - 1)
                     + Fin 1 * getU8 pixels (idx + int wd + 1);
                 gy =
                   Fin (- 1) * getU8 pixels (idx - int wd - 1)
                     - Fin 2 * getU8 pixels (idx - int wd)
                     - Fin 1 * getU8 pixels (idx - int wd + 1)
                     + Fin 1 * getU8 pixels (idx + int wd - 1)
                     + Fin 2 * getU8 pixels (idx + int wd)
                     + Fin 1 * getU8 pixels (idx + int wd + 1)
             in setF32 edges idx (Math_sqrt (gx * gx + gy * gy))))
       (replicate (wd * ht) (Fin 0))"

text \<open>
  The values that the loop bodies of \<open>fastBlur\<close> and \<open>computeEdgeMap\<close> store at the pixel
  \<open>(x, y)\<close>.
\<close>

definition blurAt :: "nat list \<Rightarrow> nat \<Rightarrow> int \<Rightarrow> int \<Rightarrow> jsnum" where
  "blurAt pixels wd y x =
     (let idx = y * int wd + x;
          sum =
            getU8 pixels (idx - int wd - 1) + getU8 pixels (idx - int wd)
              + getU8 pixels (idx - int wd + 1)
              + getU8 pixels (idx - 1) + getU8 pixels idx + getU8 pixels (idx + 1)
              + getU8 pixels (idx + int wd - 1) + getU8 pixels (idx + int wd)
              + getU8 pixels (idx + int wd + 1)
      in sum / Fin 9)"

definition sobelAt :: "nat list \<Rightarrow> nat \<Rightarrow> int \<Rightarrow> int \<Rightarrow> jsnum" where
  "sobelAt pixels wd y x =
     (let idx = y * int wd + x;
          gx =
            Fin (- 1) * getU8 pixels (idx - int wd - 1)
              + Fin 1 * getU8 pixels (idx - int wd + 1)
              + Fin (- 2) * getU8 pixels (idx - 1) + Fin 2 * getU8 pixels (idx + 1)
              + Fin (- 1) * getU8 pixels (idx + int wd - 1)
              + Fin 1 * getU8 pixels (idx + int wd + 1);
          gy =
            Fin (- 1) * getU8 pixels (idx - int wd - 1)
              - Fin 2 * getU8 pixels (idx - int wd)
              - Fin 1 * getU8 pixels (idx - int wd + 1)
              + Fin 1 * getU8 pixels (idx + int wd - 1)
              + Fin 2 * getU8 pixels (idx + int wd)
              + Fin 1 * getU8 pixels (idx + int wd + 1)
      in Math_sqrt (gx * gx + gy * gy))"

section \<open>Frame alignment\<close>

text \<open>
  The state of the exhaustive search. The source keys \<^verbatim>\<open>scores\<close> by the string
  \<^verbatim>\<open>`${dx},${dy}`\<close>, which is one-to-one on pairs of integers: the model keys it by the pair.
\<close>

record Search =
  bestX :: int
  bestY :: int
  minDiff :: jsnum
  scores :: "int \<times> int \<rightharpoonup> jsnum"

text \<open>The two inner loops: the score \<^verbatim>\<open>diff\<close> of one offset and the count of samples.\<close>

definition scoreAt ::
  "jsnum list \<Rightarrow> jsnum list \<Rightarrow> int \<Rightarrow> int \<Rightarrow> int \<Rightarrow> int \<Rightarrow> int \<Rightarrow> jsnum \<times> nat" where
  "scoreAt edgePrev edgeCurr wd ht padding dx dy =
     for_loop padding (ht - padding) 2
       (\<lambda>y. for_loop padding (wd - padding) 2
          (\<lambda>x (diff, count).
             let idx1 = y * wd + x;
                 idx2 = (y + dy) * wd + (x + dx);
                 val1 = getF32 edgePrev idx1;
                 val2 = getF32 edgeCurr idx2;
                 d = val1 - val2
             in (diff + d * d, Suc count)))
       (Fin 0, 0)"

definition searchStep ::
  "jsnum list \<Rightarrow> jsnum list \<Rightarrow> int \<Rightarrow> int \<Rightarrow> int \<Rightarrow> int \<Rightarrow> int \<Rightarrow> Search \<Rightarrow> Search" where
  "searchStep edgePrev edgeCurr wd ht padding dy dx s =
     (let (diff, count) = scoreAt edgePrev edgeCurr wd ht padding dx dy
      in if 0 < count then
           let s = s\<lparr>scores := (scores s)((dx, dy) \<mapsto> diff)\<rparr>
           in if diff < minDiff s then s\<lparr>minDiff := diff, bestX := dx, bestY := dy\<rparr> else s
         else s)"

text \<open>
  The search loops \<^verbatim>\<open>for (dy = -sw; dy <= sw; dy += 1)\<close> over integers: \<open>dy \<le> sw\<close> is
  \<open>dy < sw + 1\<close>.
\<close>

definition alignSearch ::
  "jsnum list \<Rightarrow> jsnum list \<Rightarrow> int \<Rightarrow> int \<Rightarrow> int \<Rightarrow> Search" where
  "alignSearch edgePrev edgeCurr wd ht sw =
     for_loop (- sw) (sw + 1) 1
       (\<lambda>dy. for_loop (- sw) (sw + 1) 1
          (\<lambda>dx. searchStep edgePrev edgeCurr wd ht (sw + 2) dy dx))
       \<lparr>bestX = 0, bestY = 0, minDiff = PInf, scores = Map.empty\<rparr>"

text \<open>
  For the analysis of the search: the scan order on offsets (\<open>dy\<close> outer, \<open>dx\<close> inner,
  both ascending), the offsets scanned before the loops reach \<open>(dx, dy)\<close>, and what
  holds of the search state once the offsets in \<open>D\<close> have been scanned.
\<close>

definition scan_le :: "int \<times> int \<Rightarrow> int \<times> int \<Rightarrow> bool" where
  "scan_le k k' = (snd k < snd k' \<or> (snd k = snd k' \<and> fst k \<le> fst k'))"

definition scanned :: "int \<Rightarrow> int \<Rightarrow> int \<Rightarrow> (int \<times> int) set" where
  "scanned sw dy dx =
     {k. - sw \<le> fst k \<and> fst k \<le> sw \<and> - sw \<le> snd k \<and>
         (snd k < dy \<or> (snd k = dy \<and> fst k < dx))}"

definition searchInv ::
  "(int \<times> int \<Rightarrow> jsnum) \<Rightarrow> (int \<times> int \<Rightarrow> nat) \<Rightarrow> (int \<times> int) set \<Rightarrow> Search \<Rightarrow> bool" where
  "searchInv sc cnt D s =
     ((\<forall>k. scores s k = (if k \<in> D \<and> 0 < cnt k then Some (sc k) else None)) \<and>
      ((minDiff s = PInf \<and> bestX s = 0 \<and> bestY s = 0 \<and>
          (\<forall>k \<in> D. 0 < cnt k \<longrightarrow> \<not> sc k < PInf)) \<or>
       ((bestX s, bestY s) \<in> D \<and> 0 < cnt (bestX s, bestY s) \<and>
          sc (bestX s, bestY s) = minDiff s \<and> minDiff s < PInf \<and>
          (\<forall>k \<in> D. 0 < cnt k \<longrightarrow>
             \<not> sc k < minDiff s \<and>
             (sc k = minDiff s \<longrightarrow> scan_le (bestX s, bestY s) k)))))"

record Alignment =
  off_x :: jsnum
  off_y :: jsnum
  confidence :: jsnum

text \<open>\<^verbatim>\<open>scores[key] ?? v0\<close>.\<close>

definition score_or :: "(int \<times> int \<rightharpoonup> jsnum) \<Rightarrow> int \<times> int \<Rightarrow> jsnum \<Rightarrow> jsnum" where
  "score_or sc k v0 = (case sc k of None \<Rightarrow> v0 | Some v \<Rightarrow> v)"

text \<open>Sub-pixel refinement, rescaling, deadband and confidence, from the search's result.\<close>

definition alignResult :: "Settings \<Rightarrow> jsnum \<Rightarrow> int \<Rightarrow> int \<Rightarrow> Search \<Rightarrow> Alignment" where
  "alignResult st scale wd ht s =
     (let v0 = minDiff s;
          vxMinus = score_or (scores s) (bestX s - 1, bestY s) v0;
          vxPlus = score_or (scores s) (bestX s + 1, bestY s) v0;
          vyMinus = score_or (scores s) (bestX s, bestY s - 1) v0;
          vyPlus = score_or (scores s) (bestX s, bestY s + 1) v0;
          denomX = vxMinus - Fin 2 * v0 + vxPlus;
          denomY = vyMinus - Fin 2 * v0 + vyPlus;
          subPixelX = (if Fin (1 / 100000) < \<bar>denomX\<bar>
                       then num (bestX s) + (vxMinus - vxPlus) / (Fin 2 * denomX)
                       else num (bestX s));
          subPixelY = (if Fin (1 / 100000) < \<bar>denomY\<bar>
                       then num (bestY s) + (vyMinus - vyPlus) / (Fin 2 * denomY)
                       else num (bestY s));
          finalX = subPixelX * scale;
          finalY = subPixelY * scale;
          dist = Math_sqrt (finalX * finalX + finalY * finalY);
          conf = Math_max (Fin 0) (Fin 1 - minDiff s / num (wd * ht * 100))
      in if dist < Fin (DRIFT_DEADBAND st)
         then \<lparr>off_x = Fin 0, off_y = Fin 0, confidence = conf\<rparr>
         else \<lparr>off_x = finalX, off_y = finalY, confidence = conf\<rparr>)"

definition alignFrames ::
  "Settings \<Rightarrow> Canvas \<Rightarrow> ImageData \<Rightarrow> ImageData \<Rightarrow> error + Alignment" where
  "alignFrames st canvas prev cur =
     (let w = ALIGNMENT_DOWNSAMPLE st;
          cropW = num (int (width prev)) * Fin (CROP_RATIO st);
          scale = cropW / num (int w)
      in case resizeAndCropImageData st canvas prev w of
           Inl e \<Rightarrow> Inl e
         | Inr smallPrev \<Rightarrow>
             (case resizeAndCropImageData st canvas cur w of
                Inl e \<Rightarrow> Inl e
              | Inr smallCurr \<Rightarrow>
                  let grayPrev = toGrayscale smallPrev;
                      grayCurr = toGrayscale smallCurr;
                      blurPrev = fastBlur grayPrev w (height smallPrev);
                      blurCurr = fastBlur grayCurr w (height smallCurr);
                      edgePrev = computeEdgeMap blurPrev w (height smallPrev);
                      edgeCurr = computeEdgeMap blurCurr w (height smallCurr);
                      sw = int (SEARCH_WINDOW st);
                      s = alignSearch edgePrev edgeCurr (int w) (int (height smallPrev)) sw
                  in Inr (alignResult st scale (int w) (int (height smallPrev)) s)))"

text \<open>The edge map that \<open>alignFrames\<close> computes of a downsampled frame.\<close>

definition edgesOf :: "ImageData \<Rightarrow> nat \<Rightarrow> jsnum list" where
  "edgesOf small w =
     computeEdgeMap (fastBlur (toGrayscale small) w (height small)) w (height small)"

section \<open>Sharpness map and focus-stack merge\<close>

definition computeSharpnessMap :: "nat list \<Rightarrow> nat \<Rightarrow> nat \<Rightarrow> jsnum list" where
  "computeSharpnessMap pixels wd ht =
     for_loop 1 (int ht - 1) 1
       (\<lambda>y. for_loop 1 (int wd - 1) 1
          (\<lambda>x smap.
             let idx = (y * int wd + x) * 4;
                 gh = \<bar>getU8 pixels (idx - 4) - getU8 pixels (idx + 4)\<bar>;
                 gv = \<bar>getU8 pixels (idx - int wd * 4) - getU8 pixels (idx + int wd * 4)\<bar>;
                 mag = Math_sqrt (gh * gh + gv * gv)
             in setF32 smap (y * int wd + x) mag))
       (replicate (wd * ht) (Fin 0))"



text \<open>An array index from a number that the bounds check has found to be an integer.\<close>

fun index_of :: "jsnum \<Rightarrow> int" where
  "index_of (Fin a) = \<lfloor>a\<rfloor>"
| "index_of v = - 1"

text \<open>The body of the merge loops at the pixel \<open>(x, y)\<close>.\<close>

definition mergePixel ::
  "ImageData \<Rightarrow> jsnum list \<Rightarrow> nat \<Rightarrow> nat \<Rightarrow> jsnum \<Rightarrow> jsnum \<Rightarrow> jsnum \<Rightarrow> jsnum \<Rightarrow> bool
     \<Rightarrow> int \<Rightarrow> int \<Rightarrow> nat list \<times> jsnum list \<Rightarrow> nat list \<times> jsnum list" where
  "mergePixel newImageData newSharpness wd ht offsetX offsetY sensitivity threshold debugMode
       y x rs =
     (let resultPixels = fst rs;
          resultSharpness = snd rs;
          targetIdx = y * int wd + x;
          srcX = Math_round (num x + offsetX);
          srcY = Math_round (num y + offsetY)
      in if Fin 0 \<le> srcX \<and> srcX < num (int wd) \<and> Fin 0 \<le> srcY \<and> srcY < num (int ht) then
           let srcIdx = index_of (srcY * num (int wd) + srcX);
               newVal = getF32 newSharpness srcIdx;
               oldVal = getF32 resultSharpness targetIdx;
               isNewSharp = threshold < newVal;
               isOldSharp = threshold < oldVal
           in if isNewSharp \<and> (oldVal + sensitivity < newVal \<or> \<not> isOldSharp) then
                (if debugMode then
                   (setU8C (setU8C (setU8C (setU8C resultPixels
                      (targetIdx * 4) (Fin 255)) (targetIdx * 4 + 1) (Fin 0))
                      (targetIdx * 4 + 2) (Fin 255)) (targetIdx * 4 + 3) (Fin 255),
                    setF32 resultSharpness targetIdx newVal)
                 else
                   (setU8C (setU8C (setU8C (setU8C resultPixels
                      (targetIdx * 4) (getU8 (data newImageData) (srcIdx * 4)))
                      (targetIdx * 4 + 1) (getU8 (data newImageData) (srcIdx * 4 + 1)))
                      (targetIdx * 4 + 2) (getU8 (data newImageData) (srcIdx * 4 + 2)))
                      (targetIdx * 4 + 3) (Fin 255),
                    setF32 resultSharpness targetIdx newVal))
              else if \<not> isOldSharp then
                (setU8C resultPixels (targetIdx * 4 + 3) (Fin 0),
                 setF32 resultSharpness targetIdx (Fin 0))
              else if isOldSharp then
                (if debugMode then
                   (setU8C (setU8C (setU8C (setU8C resultPixels
                      (targetIdx * 4) (Fin 255)) (targetIdx * 4 + 1) (Fin 0))
                      (targetIdx * 4 + 2) (Fin 255)) (targetIdx * 4 + 3) (Fin 255),
                    resultSharpness)
                 else (resultPixels, resultSharpness))
              else (resultPixels, resultSharpness)
         else (resultPixels, resultSharpness))"

text \<open>
  The per-pixel rule of the merge, read off \<open>mergePixel\<close>. \<open>sampled\<close> is the index
  \<^verbatim>\<open>srcIdx\<close> of the position sampled in the new frame (\<open>None\<close> when it lies outside the
  frame); \<open>newWins\<close> is the condition of the first branch (the new layer wins); \<open>rgba\<close>
  is the pixel \<open>k\<close> of an RGBA buffer and \<open>alpha\<close> its alpha channel; \<open>mergeCell\<close> is what the body makes of the colour
  and sharpness of its target pixel.
\<close>

definition sampled :: "nat \<Rightarrow> nat \<Rightarrow> jsnum \<Rightarrow> jsnum \<Rightarrow> int \<Rightarrow> int \<Rightarrow> int option" where
  "sampled wd ht offsetX offsetY y x =
     (let srcX = Math_round (num x + offsetX);
          srcY = Math_round (num y + offsetY)
      in if Fin 0 \<le> srcX \<and> srcX < num (int wd) \<and> Fin 0 \<le> srcY \<and> srcY < num (int ht)
         then Some (index_of (srcY * num (int wd) + srcX)) else None)"

definition newWins :: "jsnum \<Rightarrow> jsnum \<Rightarrow> jsnum \<Rightarrow> jsnum \<Rightarrow> bool" where
  "newWins threshold sensitivity newVal oldVal =
     (threshold < newVal \<and> (oldVal + sensitivity < newVal \<or> \<not> threshold < oldVal))"

definition rgba :: "nat list \<Rightarrow> nat \<Rightarrow> nat \<times> nat \<times> nat \<times> nat" where
  "rgba d k = (d ! (4 * k), d ! (4 * k + 1), d ! (4 * k + 2), d ! (4 * k + 3))"


definition mergeCell ::
  "ImageData \<Rightarrow> jsnum list \<Rightarrow> nat \<Rightarrow> nat \<Rightarrow> jsnum \<Rightarrow> jsnum \<Rightarrow> jsnum \<Rightarrow> jsnum \<Rightarrow> bool
     \<Rightarrow> int \<Rightarrow> int \<Rightarrow> (nat \<times> nat \<times> nat \<times> nat) \<times> jsnum
     \<Rightarrow> (nat \<times> nat \<times> nat \<times> nat) \<times> jsnum" where
  "mergeCell newImageData newSharpness wd ht offsetX offsetY sensitivity threshold debugMode
       y x c =
     (case sampled wd ht offsetX offsetY y x of
        None \<Rightarrow> c
      | Some srcIdx \<Rightarrow>
          let newVal = getF32 newSharpness srcIdx;
              oldVal = snd c
          in if newWins threshold sensitivity newVal oldVal then
               (if debugMode then (255, 0, 255, 255)
                else (ToUint8Clamp (getU8 (data newImageData) (srcIdx * 4)),
                      ToUint8Clamp (getU8 (data newImageData) (srcIdx * 4 + 1)),
                      ToUint8Clamp (getU8 (data newImageData) (srcIdx * 4 + 2)), 255),
                newVal)
             else if \<not> threshold < oldVal then
               (case fst c of (r, g, b, a) \<Rightarrow> ((r, g, b, 0), Fin 0))
             else (if debugMode then (255, 0, 255, 255) else fst c, oldVal))"


record MergeResult =
  imageData :: ImageData
  sharpness :: "jsnum list"

definition mergeFocusStack ::
  "ImageData \<Rightarrow> jsnum list \<Rightarrow> ImageData \<Rightarrow> jsnum \<Rightarrow> jsnum \<Rightarrow> jsnum \<Rightarrow> jsnum \<Rightarrow> bool
     \<Rightarrow> error + MergeResult" where
  "mergeFocusStack accImageData accSharpness newImageData offsetX offsetY sensitivity threshold
       debugMode =
     (let wd = width accImageData;
          ht = height accImageData;
          len = wd * ht
      in case typedSet (replicate (len * 4) 0) (data accImageData) of
           Inl e \<Rightarrow> Inl e
         | Inr resultPixels \<Rightarrow>
             (case typedSet (replicate len (Fin 0)) accSharpness of
                Inl e \<Rightarrow> Inl e
              | Inr resultSharpness \<Rightarrow>
                  let newSharpness = computeSharpnessMap (data newImageData) wd ht;
                      rs = for_loop 0 (int ht) 1
                             (\<lambda>y. for_loop 0 (int wd) 1
                                (\<lambda>x. mergePixel newImageData newSharpness wd ht offsetX offsetY
                                        sensitivity threshold debugMode y x))
                             (resultPixels, resultSharpness)
                  in Inr \<lparr>imageData = \<lparr>width = wd, height = ht, data = fst rs\<rparr>,
                          sharpness = snd rs\<rparr>))"

section \<open>Fingerprint similarity\<close>

definition getFingerprintSimilarity :: "nat list \<Rightarrow> nat list \<Rightarrow> jsnum" where
  "getFingerprintSimilarity fp1 fp2 =
     (let diff = for_loop 0 (int (length fp1)) 1
                   (\<lambda>i diff. diff + \<bar>getU8 fp1 i - getU8 fp2 i\<bar>) (Fin 0)
      in Fin 1 - diff / (num (int (length fp1)) * Fin 255))"

section \<open>A model canvas and concrete inputs\<close>

text \<open>
  A nearest-neighbour resampler, standing for the browser's canvas where a concrete one
  is needed: the target pixel \<open>(i, j)\<close> takes the source pixel under the centre of its
  cell of the crop rectangle, and transparent black where that falls outside the source.
  It fails on an empty target and on a crop rectangle that is not finite.
\<close>

definition pixelAt :: "ImageData \<Rightarrow> int \<Rightarrow> int \<Rightarrow> nat list" where
  "pixelAt src sx sy =
     (if 0 \<le> sx \<and> sx < int (width src) \<and> 0 \<le> sy \<and> sy < int (height src)
      then map (\<lambda>c. data src ! (4 * (nat sy * width src + nat sx) + c)) [0, 1, 2, 3]
      else [0, 0, 0, 0])"

definition nearestCanvas :: Canvas where
  "nearestCanvas src crop tw th =
     (case crop of
        (Fin cropX, Fin cropY, Fin cropW, Fin cropH) \<Rightarrow>
          if tw = 0 \<or> th = 0 then None
          else Some (concat (map (\<lambda>k.
             pixelAt src \<lfloor>cropX + (real (k mod tw) + 1 / 2) * cropW / real tw\<rfloor>
                         \<lfloor>cropY + (real (k div tw) + 1 / 2) * cropH / real th\<rfloor>)
             [0..<tw * th]))
      | _ \<Rightarrow> None)"

text \<open>A frame of one colour.\<close>

definition solidFrame :: "nat \<Rightarrow> nat \<Rightarrow> nat \<times> nat \<times> nat \<times> nat \<Rightarrow> ImageData" where
  "solidFrame w h c =
     \<lparr>width = w, height = h,
      data = concat (replicate (w * h) (case c of (r, g, b, a) \<Rightarrow> [r, g, b, a]))\<rparr>"



text \<open>Two 1\<times>1 frames and a 2\<times>2 frame.\<close>

definition acc1x1 :: ImageData where
  "acc1x1 = \<lparr>width = 1, height = 1, data = [10, 20, 30, 255]\<rparr>"

definition new1x1 :: ImageData where
  "new1x1 = \<lparr>width = 1, height = 1, data = [1, 2, 3, 255]\<rparr>"

definition new2x2 :: ImageData where
  "new2x2 = \<lparr>width = 2, height = 2,
     data = [1, 2, 3, 255,  4, 5, 6, 255,  7, 8, 9, 255,  10, 11, 12, 255]\<rparr>"

text \<open>An 8\<times>8 edge map without edges.\<close>

definition flat8x8 :: "jsnum list" where
  "flat8x8 = replicate 64 (Fin 0)"

text \<open>The grey value that \<open>toGrayscale\<close> stores for a pixel of the colour \<open>c\<close>.\<close>

definition grayOf :: "nat \<times> nat \<times> nat \<times> nat \<Rightarrow> nat" where
  "grayOf c =
     (case c of (r, g, b, a) \<Rightarrow>
        ToUint8 (Fin 0.299 * Fin (real r) + Fin 0.587 * Fin (real g) + Fin 0.114 * Fin (real b)))"

section \<open>Arithmetic of JavaScript numbers\<close>

lemma Fin_arith [simp]:
  "Fin a + Fin b = Fin (a + b)"
  "Fin a - Fin b = Fin (a - b)"
  "Fin a * Fin b = Fin (a * b)"
  "b \<noteq> 0 \<Longrightarrow> Fin a / Fin b = Fin (a / b)"
  "\<bar>Fin a\<bar> = Fin \<bar>a\<bar>"
  "(Fin a < Fin b) = (a < b)"
  "(Fin a \<le> Fin b) = (a \<le> b)"
  by (simp_all add: plus_jsnum_def minus_jsnum_def times_jsnum_def divide_jsnum_def
      abs_jsnum_def less_jsnum_def less_eq_jsnum_def)


section \<open>Loops\<close>

lemma for_loop_done: "hi \<le> i \<Longrightarrow> for_loop i hi step body s = s"
  by (simp add: for_loop.simps)

lemma for_loop_unfold:
  "i < hi \<Longrightarrow> 0 < step \<Longrightarrow> for_loop i hi step body s = for_loop (i + step) hi step body (body i s)"
  by (subst for_loop.simps) simp

lemma for_loop_inv_from:
  "lo \<le> i \<Longrightarrow> P s \<Longrightarrow> (\<And>j t. lo \<le> j \<Longrightarrow> j < hi \<Longrightarrow> P t \<Longrightarrow> P (body j t))
     \<Longrightarrow> P (for_loop i hi step body s)"
proof (induction i hi step body s rule: for_loop.induct)
  case (1 i hi step body s)
  show ?case
  proof (cases "i < hi \<and> 0 < step")
    case True
    then have "P (body i s)" using 1 by simp
    moreover have "lo \<le> i + step" using True 1 by simp
    ultimately have "P (for_loop (i + step) hi step body (body i s))"
      by (intro "1.IH") (use True "1.prems" in auto)
    then show ?thesis using True by (simp add: for_loop_unfold)
  next
    case False
    then show ?thesis using 1 by (subst for_loop.simps) simp
  qed
qed

lemma for_loop_inv:
  assumes "P s" and "\<And>j t. lo \<le> j \<Longrightarrow> j < hi \<Longrightarrow> P t \<Longrightarrow> P (body j t)"
  shows "P (for_loop lo hi step body s)"
  using for_loop_inv_from [of lo lo P s hi body step] assms by simp

lemma for_loop_idx_from:
  "lo \<le> i \<Longrightarrow> i \<le> hi \<Longrightarrow> I i s
     \<Longrightarrow> (\<And>j t. lo \<le> j \<Longrightarrow> j < hi \<Longrightarrow> I j t \<Longrightarrow> I (j + 1) (body j t))
     \<Longrightarrow> I hi (for_loop i hi 1 body s)"
proof (induction i hi "1::int" body s rule: for_loop.induct)
  case (1 i hi body s)
  show ?case
  proof (cases "i < hi")
    case True
    then have "I (i + 1) (body i s)" using 1 by simp
    moreover have "lo \<le> i + 1" "i + 1 \<le> hi" using True 1 by simp_all
    ultimately have "I hi (for_loop (i + 1) hi 1 body (body i s))"
      by (intro "1.hyps") (use True "1.prems" in auto)
    then show ?thesis using True by (simp add: for_loop_unfold)
  next
    case False
    then have "i = hi" using 1 by simp
    then show ?thesis using 1 by (simp add: for_loop_done)
  qed
qed

lemma for_loop_idx:
  assumes "lo \<le> hi" and "I lo s"
    and "\<And>j t. lo \<le> j \<Longrightarrow> j < hi \<Longrightarrow> I j t \<Longrightarrow> I (j + 1) (body j t)"
  shows "I hi (for_loop lo hi 1 body s)"
  using for_loop_idx_from [of lo lo hi I s body] assms by simp

lemma cell_index:
  fixes W :: int
  assumes "0 \<le> x" "x < W"
  shows "(k = y * W + x) = (k div W = y \<and> k mod W = x)"
proof
  assume "k = y * W + x"
  then show "k div W = y \<and> k mod W = x" using assms by simp
next
  assume "k div W = y \<and> k mod W = x"
  then show "k = y * W + x" by (metis mult.commute mult_div_mod_eq)
qed

lemma row_loop:
  fixes body :: "int \<Rightarrow> 's \<Rightarrow> 's" and cell :: "'s \<Rightarrow> nat \<Rightarrow> 'c"
  assumes inv0: "ok t"
    and step: "\<And>x u. x0 \<le> x \<Longrightarrow> x < x1 \<Longrightarrow> ok u \<Longrightarrow>
        ok (body x u) \<and>
        (\<forall>k. cell (body x u) k = (if int k = y * W + x then g x (cell u k) else cell u k))"
    and bounds: "0 \<le> x0" "x1 \<le> W"
  shows "ok (for_loop x0 x1 1 body t) \<and>
    (\<forall>k. cell (for_loop x0 x1 1 body t) k =
       (if int k div W = y \<and> x0 \<le> int k mod W \<and> int k mod W < x1
        then g (int k mod W) (cell t k) else cell t k))"
proof (cases "x0 \<le> x1")
  case False
  then show ?thesis using inv0 by (auto simp: for_loop_done)
next
  case True
  define J where "J = (\<lambda>x u. ok u \<and>
    (\<forall>k. cell u k = (if int k div W = y \<and> x0 \<le> int k mod W \<and> int k mod W < x
                      then g (int k mod W) (cell t k) else cell t k)))"
  have "J x1 (for_loop x0 x1 1 body t)"
  proof (rule for_loop_idx [OF True])
    show "J x0 t" using inv0 by (auto simp: J_def)
  next
    fix j u assume j: "x0 \<le> j" "j < x1" and Ju: "J j u"
    have s: "ok (body j u)"
        "\<And>k. cell (body j u) k = (if int k = y * W + j then g j (cell u k) else cell u k)"
      using step [OF j] Ju by (simp_all add: J_def)
    have ci: "\<And>k. (int k = y * W + j) = (int k div W = y \<and> int k mod W = j)"
      using cell_index [of j W] j bounds by simp
    show "J (j + 1) (body j u)"
      unfolding J_def
    proof (intro conjI allI)
      show "ok (body j u)" by (rule s)
    next
      fix k
      show "cell (body j u) k =
        (if int k div W = y \<and> x0 \<le> int k mod W \<and> int k mod W < j + 1
         then g (int k mod W) (cell t k) else cell t k)"
      proof (cases "int k div W = y \<and> int k mod W = j")
        case True
        then have "cell u k = cell t k" using Ju by (simp add: J_def)
        then show ?thesis using True s(2) ci j by simp
      next
        case False
        then have "cell (body j u) k = cell u k" using s(2) [of k] ci [of k] by auto
        then show ?thesis using False Ju by (auto simp: J_def)
      qed
    qed
  qed
  then show ?thesis by (simp add: J_def)
qed

lemma raster_loops:
  fixes body :: "int \<Rightarrow> int \<Rightarrow> 's \<Rightarrow> 's" and cell :: "'s \<Rightarrow> nat \<Rightarrow> 'c"
  assumes inv0: "ok s"
    and step: "\<And>y x t. y0 \<le> y \<Longrightarrow> y < y1 \<Longrightarrow> x0 \<le> x \<Longrightarrow> x < x1 \<Longrightarrow> ok t \<Longrightarrow>
        ok (body y x t) \<and>
        (\<forall>k. cell (body y x t) k = (if int k = y * W + x then g y x (cell t k) else cell t k))"
    and bounds: "0 \<le> x0" "x1 \<le> W"
  shows "ok (for_loop y0 y1 1 (\<lambda>y. for_loop x0 x1 1 (body y)) s) \<and>
    (\<forall>k. cell (for_loop y0 y1 1 (\<lambda>y. for_loop x0 x1 1 (body y)) s) k =
       (if y0 \<le> int k div W \<and> int k div W < y1 \<and> x0 \<le> int k mod W \<and> int k mod W < x1
        then g (int k div W) (int k mod W) (cell s k) else cell s k))"
proof (cases "y0 \<le> y1")
  case False
  then show ?thesis using inv0 by (auto simp: for_loop_done)
next
  case True
  define I where "I = (\<lambda>y t. ok t \<and>
    (\<forall>k. cell t k =
       (if y0 \<le> int k div W \<and> int k div W < y \<and> x0 \<le> int k mod W \<and> int k mod W < x1
        then g (int k div W) (int k mod W) (cell s k) else cell s k)))"
  have "I y1 (for_loop y0 y1 1 (\<lambda>y. for_loop x0 x1 1 (body y)) s)"
  proof (rule for_loop_idx [OF True])
    show "I y0 s" using inv0 by (auto simp: I_def)
  next
    fix j t assume j: "y0 \<le> j" "j < y1" and It: "I j t"
    have r: "ok (for_loop x0 x1 1 (body j) t) \<and>
      (\<forall>k. cell (for_loop x0 x1 1 (body j) t) k =
        (if int k div W = j \<and> x0 \<le> int k mod W \<and> int k mod W < x1
         then g j (int k mod W) (cell t k) else cell t k))"
    proof (rule row_loop [where g = "g j"])
      show "ok t" using It by (simp add: I_def)
    qed (use step j bounds in auto)
    show "I (j + 1) (for_loop x0 x1 1 (body j) t)"
      unfolding I_def
    proof (intro conjI allI)
      show "ok (for_loop x0 x1 1 (body j) t)" using r by simp
    next
      fix k
      have vt: "cell t k =
         (if y0 \<le> int k div W \<and> int k div W < j \<and> x0 \<le> int k mod W \<and> int k mod W < x1
          then g (int k div W) (int k mod W) (cell s k) else cell s k)"
        using It by (simp add: I_def)
      show "cell (for_loop x0 x1 1 (body j) t) k =
        (if y0 \<le> int k div W \<and> int k div W < j + 1 \<and> x0 \<le> int k mod W \<and> int k mod W < x1
         then g (int k div W) (int k mod W) (cell s k) else cell s k)"
      proof (cases "int k div W = j")
        case True
        then show ?thesis using r vt j by simp
      next
        case False
        then have "cell (for_loop x0 x1 1 (body j) t) k = cell t k" using r by simp
        then show ?thesis using False vt by auto
      qed
    qed
  qed
  then show ?thesis by (simp add: I_def)
qed

section \<open>Typed arrays\<close>

lemma length_setF32 [simp]: "length (setF32 a i v) = length a"
  by (simp add: setF32_def)

lemma length_setU8 [simp]: "length (setU8 a i v) = length a"
  by (simp add: setU8_def)

lemma length_setU8C [simp]: "length (setU8C a i v) = length a"
  by (simp add: setU8C_def)

lemma nth_setF32:
  "0 \<le> i \<Longrightarrow> i < int (length a) \<Longrightarrow> setF32 a i v ! k = (if int k = i then v else a ! k)"
  by (auto simp: setF32_def)

lemma nth_setU8:
  "0 \<le> i \<Longrightarrow> i < int (length a) \<Longrightarrow>
     setU8 a i v ! k = (if int k = i then ToUint8 v else a ! k)"
  by (auto simp: setU8_def)

lemma getU8_nat: "i < length a \<Longrightarrow> getU8 a (int i) = Fin (real (a ! i))"
  by (simp add: getU8_def)

lemma getF32_nat: "i < length a \<Longrightarrow> getF32 a (int i) = a ! i"
  by (simp add: getF32_def)

lemma cell_in_range:
  fixes x y w h :: int
  assumes "0 \<le> y" "y < h" "0 \<le> x" "x < w"
  shows "0 \<le> y * w + x" "y * w + x < w * h"
proof -
  show "0 \<le> y * w + x" using assms by simp
  have "y * w + x < (y + 1) * w" using assms by (simp add: algebra_simps)
  also have "\<dots> \<le> h * w" using assms by (intro mult_right_mono) auto
  finally show "y * w + x < w * h" by (simp add: mult.commute)
qed

lemma cell_in_range_nat:
  fixes x y w h :: nat
  assumes "y < h" "x < w"
  shows "y * w + x < w * h"
proof -
  have "int y * int w + int x < int w * int h"
    using cell_in_range(2) [of "int y" "int h" "int x" "int w"] assms by simp
  then show ?thesis by (metis of_nat_add of_nat_less_iff of_nat_mult)
qed


section \<open>The sharpness map\<close>




section \<open>The merge, pixel by pixel\<close>

lemmas jsnum_ops = plus_jsnum_def minus_jsnum_def times_jsnum_def divide_jsnum_def
  abs_jsnum_def less_jsnum_def less_eq_jsnum_def uminus_jsnum_def zero_jsnum_def one_jsnum_def

lemma ToUint8Clamp_consts [simp]:
  "ToUint8Clamp (Fin 255) = 255" "ToUint8Clamp (Fin 0) = 0"
  by simp_all

lemma nth_setU8C:
  "0 \<le> i \<Longrightarrow> i < int (length a) \<Longrightarrow>
     setU8C a i v ! k = (if int k = i then ToUint8Clamp v else a ! k)"
  by (auto simp: setU8C_def)

lemma rgba_setU8C:
  assumes "4 * k + 3 < length p"
  shows "rgba (setU8C p (int k * 4) v) j =
           (if j = k then (case rgba p k of (r, g, b, a) \<Rightarrow> (ToUint8Clamp v, g, b, a))
            else rgba p j)"
    and "rgba (setU8C p (int k * 4 + 1) v) j =
           (if j = k then (case rgba p k of (r, g, b, a) \<Rightarrow> (r, ToUint8Clamp v, b, a))
            else rgba p j)"
    and "rgba (setU8C p (int k * 4 + 2) v) j =
           (if j = k then (case rgba p k of (r, g, b, a) \<Rightarrow> (r, g, ToUint8Clamp v, a))
            else rgba p j)"
    and "rgba (setU8C p (int k * 4 + 3) v) j =
           (if j = k then (case rgba p k of (r, g, b, a) \<Rightarrow> (r, g, b, ToUint8Clamp v))
            else rgba p j)"
proof -
  have i: "int k * 4 = int (4 * k)" "int k * 4 + 1 = int (4 * k + 1)"
    "int k * 4 + 2 = int (4 * k + 2)" "int k * 4 + 3 = int (4 * k + 3)" by simp_all
  show "rgba (setU8C p (int k * 4) v) j =
           (if j = k then (case rgba p k of (r, g, b, a) \<Rightarrow> (ToUint8Clamp v, g, b, a))
            else rgba p j)"
    unfolding i using assms by (auto simp: rgba_def setU8C_def nth_list_update)
  show "rgba (setU8C p (int k * 4 + 1) v) j =
           (if j = k then (case rgba p k of (r, g, b, a) \<Rightarrow> (r, ToUint8Clamp v, b, a))
            else rgba p j)"
    unfolding i using assms by (auto simp: rgba_def setU8C_def nth_list_update)
  show "rgba (setU8C p (int k * 4 + 2) v) j =
           (if j = k then (case rgba p k of (r, g, b, a) \<Rightarrow> (r, g, ToUint8Clamp v, a))
            else rgba p j)"
    unfolding i using assms by (auto simp: rgba_def setU8C_def nth_list_update)
  show "rgba (setU8C p (int k * 4 + 3) v) j =
           (if j = k then (case rgba p k of (r, g, b, a) \<Rightarrow> (r, g, b, ToUint8Clamp v))
            else rgba p j)"
    unfolding i using assms by (auto simp: rgba_def setU8C_def nth_list_update)
qed

lemma mergePixel_cell:
  assumes k: "int k = y * int wd + x" "k < wd * ht"
    and len: "length rp = 4 * (wd * ht)" "length rs = wd * ht"
  shows "length (fst (mergePixel nw ns wd ht ox oy sens thr dbg y x (rp, rs))) = 4 * (wd * ht) \<and>
         length (snd (mergePixel nw ns wd ht ox oy sens thr dbg y x (rp, rs))) = wd * ht \<and>
         (\<forall>j. (rgba (fst (mergePixel nw ns wd ht ox oy sens thr dbg y x (rp, rs))) j,
                snd (mergePixel nw ns wd ht ox oy sens thr dbg y x (rp, rs)) ! j) =
               (if j = k then mergeCell nw ns wd ht ox oy sens thr dbg y x (rgba rp k, rs ! k)
                else (rgba rp j, rs ! j)))"
proof -
  have t: "y * int wd + x = int k" using k by simp
  have b: "4 * k + 3 < length rp" "k < length rs" using k len by simp_all
  have o: "getF32 rs (int k) = rs ! k" using b by (simp add: getF32_nat)
  have u: "setF32 rs (int k) v ! j = (if j = k then v else rs ! j)" for v j
    using b by (auto simp: setF32_def)
  show ?thesis
    unfolding mergePixel_def mergeCell_def sampled_def newWins_def Let_def t fst_conv snd_conv o
    using b len
    by (auto simp: rgba_setU8C u split: prod.splits)
qed

lemma merge_loops:
  fixes nw :: ImageData and ns :: "jsnum list" and ox oy sens thr :: jsnum and dbg :: bool
    and rp :: "nat list" and rs :: "jsnum list" and wd ht :: nat
  assumes len: "length rp = 4 * (wd * ht)" "length rs = wd * ht"
  defines "res \<equiv> for_loop 0 (int ht) 1
                    (\<lambda>y. for_loop 0 (int wd) 1
                       (\<lambda>x. mergePixel nw ns wd ht ox oy sens thr dbg y x)) (rp, rs)"
  shows "length (fst res) = 4 * (wd * ht) \<and> length (snd res) = wd * ht \<and>
    (\<forall>k < wd * ht. (rgba (fst res) k, snd res ! k) =
        mergeCell nw ns wd ht ox oy sens thr dbg (int k div int wd) (int k mod int wd)
          (rgba rp k, rs ! k))"
proof -
  have r: "(length (fst res) = 4 * (wd * ht) \<and> length (snd res) = wd * ht) \<and>
    (\<forall>k. (rgba (fst res) k, snd res ! k) =
       (if 0 \<le> int k div int wd \<and> int k div int wd < int ht \<and>
           0 \<le> int k mod int wd \<and> int k mod int wd < int wd
        then mergeCell nw ns wd ht ox oy sens thr dbg (int k div int wd) (int k mod int wd)
               (rgba (fst (rp, rs)) k, snd (rp, rs) ! k)
        else (rgba (fst (rp, rs)) k, snd (rp, rs) ! k)))"
    unfolding res_def
  proof (rule raster_loops [where
        ok = "\<lambda>t. length (fst t) = 4 * (wd * ht) \<and> length (snd t) = wd * ht"
        and cell = "\<lambda>t k. (rgba (fst t) k, snd t ! k)" and W = "int wd"
        and g = "\<lambda>y x c. mergeCell nw ns wd ht ox oy sens thr dbg y x c"])
    show "length (fst (rp, rs)) = 4 * (wd * ht) \<and> length (snd (rp, rs)) = wd * ht"
      using len by simp
  next
    fix y x :: int and t :: "nat list \<times> jsnum list"
    assume a: "0 \<le> y" "y < int ht" "0 \<le> x" "x < int wd"
      and ok: "length (fst t) = 4 * (wd * ht) \<and> length (snd t) = wd * ht"
    define k where "k = nat (y * int wd + x)"
    have c: "0 \<le> y * int wd + x" "y * int wd + x < int wd * int ht"
      using cell_in_range [of y "int ht" x "int wd"] a by simp_all
    have k: "int k = y * int wd + x" "k < wd * ht"
      using c by (simp_all add: k_def nat_less_iff)
    have m: "length (fst (mergePixel nw ns wd ht ox oy sens thr dbg y x (fst t, snd t)))
          = 4 * (wd * ht) \<and>
        length (snd (mergePixel nw ns wd ht ox oy sens thr dbg y x (fst t, snd t))) = wd * ht \<and>
        (\<forall>j. (rgba (fst (mergePixel nw ns wd ht ox oy sens thr dbg y x (fst t, snd t))) j,
               snd (mergePixel nw ns wd ht ox oy sens thr dbg y x (fst t, snd t)) ! j) =
              (if j = k then mergeCell nw ns wd ht ox oy sens thr dbg y x
                               (rgba (fst t) k, snd t ! k)
               else (rgba (fst t) j, snd t ! j)))"
      using mergePixel_cell [OF k, of "fst t" "snd t"] ok by blast
    have e: "(int j = y * int wd + x) = (j = k)" for j using k by auto
    show "(length (fst (mergePixel nw ns wd ht ox oy sens thr dbg y x t)) = 4 * (wd * ht) \<and>
           length (snd (mergePixel nw ns wd ht ox oy sens thr dbg y x t)) = wd * ht) \<and>
          (\<forall>j. (rgba (fst (mergePixel nw ns wd ht ox oy sens thr dbg y x t)) j,
                 snd (mergePixel nw ns wd ht ox oy sens thr dbg y x t) ! j) =
                (if int j = y * int wd + x
                 then mergeCell nw ns wd ht ox oy sens thr dbg y x (rgba (fst t) j, snd t ! j)
                 else (rgba (fst t) j, snd t ! j)))"
      using m unfolding e by auto
  qed simp_all
  show ?thesis
  proof (intro conjI allI impI)
    fix k assume k: "k < wd * ht"
    then have "0 < wd" by (cases wd) auto
    then have "int k mod int wd < int wd" "0 \<le> int k mod int wd" "0 \<le> int k div int wd"
      by (simp_all add: pos_imp_zdiv_nonneg_iff)
    moreover have "int k div int wd < int ht"
    proof -
      have "k div wd < ht" using k by (simp add: less_mult_imp_div_less mult.commute)
      then show ?thesis by (metis of_nat_less_iff zdiv_int)
    qed
    ultimately show "(rgba (fst res) k, snd res ! k) =
        mergeCell nw ns wd ht ox oy sens thr dbg (int k div int wd) (int k mod int wd)
          (rgba rp k, rs ! k)"
      using r by simp
  qed (use r in simp_all)
qed

text \<open>The accumulator's buffers as copied into fresh zeroed ones.\<close>

lemma typedSet_fits:
  "length src \<le> length tgt \<Longrightarrow> typedSet tgt src = Inr (src @ drop (length src) tgt)"
  by (simp add: typedSet_def)

lemma typedSet_same: "length src = n \<Longrightarrow> typedSet (replicate n z) src = Inr src"
  by (simp add: typedSet_def)

lemma mergeFocusStack_cells:
  assumes len: "length (data acc) = 4 * (width acc * height acc)"
      "length accSharp = width acc * height acc"
  shows "\<exists>r. mergeFocusStack acc accSharp nw ox oy sens thr dbg = Inr r \<and>
     width (imageData r) = width acc \<and> height (imageData r) = height acc \<and>
     length (data (imageData r)) = 4 * (width acc * height acc) \<and>
     length (sharpness r) = width acc * height acc \<and>
     (\<forall>k < width acc * height acc.
        (rgba (data (imageData r)) k, sharpness r ! k) =
          mergeCell nw (computeSharpnessMap (data nw) (width acc) (height acc))
            (width acc) (height acc) ox oy sens thr dbg
            (int k div int (width acc)) (int k mod int (width acc))
            (rgba (data acc) k, accSharp ! k))"
proof -
  have p: "typedSet (replicate (width acc * height acc * 4) 0) (data acc) = Inr (data acc)"
    using len by (intro typedSet_same) simp
  have s: "typedSet (replicate (width acc * height acc) (Fin 0)) accSharp = Inr accSharp"
    using len by (intro typedSet_same) simp
  show ?thesis
    unfolding mergeFocusStack_def Let_def p s
    using merge_loops [OF len, of nw
        "computeSharpnessMap (data nw) (width acc) (height acc)" ox oy sens thr dbg]
    by simp
qed



lemma computeSharpnessMap_1x1:
  "computeSharpnessMap px 1 1 = [Fin 0]" "computeSharpnessMap px (Suc 0) (Suc 0) = [Fin 0]"
  by (simp_all add: computeSharpnessMap_def for_loop_done)

lemma Math_round_int [simp]: "Math_round (Fin (of_int i)) = Fin (of_int i)"
proof -
  have "\<lfloor>(of_int i :: real) + 1 / 2\<rfloor> = i" by linarith
  then show ?thesis by simp
qed



lemma not_less_NaN [simp]: "\<not> (a::jsnum) < NaN" "\<not> NaN < (a::jsnum)"
  by (cases a; simp add: less_jsnum_def)+




lemma jle_refl: "(a::jsnum) \<noteq> NaN \<Longrightarrow> a \<le> a"
  by (cases a; simp add: less_eq_jsnum_def)

lemma not_less_jle: "\<not> (a::jsnum) < b \<Longrightarrow> a \<noteq> NaN \<Longrightarrow> b \<noteq> NaN \<Longrightarrow> b \<le> a"
  by (cases a; cases b; simp add: less_eq_jsnum_def less_jsnum_def)

lemma jle_not_NaN: "(a::jsnum) \<le> b \<Longrightarrow> a \<noteq> NaN \<and> b \<noteq> NaN"
  by (cases a; cases b; simp add: less_eq_jsnum_def)

lemma newWins_grows:
  assumes "newWins thr sens nv old" "Fin 0 \<le> sens" "Fin 0 \<le> thr" "old \<noteq> NaN"
  shows "old \<le> nv \<and> nv \<noteq> Fin 0"
  using assms
  by (cases thr; cases sens; cases nv; cases old;
      simp add: newWins_def less_eq_jsnum_def less_jsnum_def plus_jsnum_def; linarith?)

lemma mergeCell_sharpness_cases:
  "snd (mergeCell nw ns wd ht ox oy sens thr dbg y x (p, old)) = old
   \<or> (snd (mergeCell nw ns wd ht ox oy sens thr dbg y x (p, old)) = Fin 0 \<and> \<not> thr < old)
   \<or> newWins thr sens (snd (mergeCell nw ns wd ht ox oy sens thr dbg y x (p, old))) old"
  by (auto simp: mergeCell_def Let_def split: option.splits prod.splits)

section \<open>Fingerprint similarity and concrete merges\<close>

lemma for_loop_stop: "\<not> (i < hi \<and> 0 < step) \<Longrightarrow> for_loop i hi step body s = s"
  by (subst for_loop.simps) auto

lemma for_loop_cong_from:
  "l \<le> i \<Longrightarrow> (\<And>j t. l \<le> j \<Longrightarrow> j < hi \<Longrightarrow> f j t = g j t)
     \<Longrightarrow> for_loop i hi step f s = for_loop i hi step g s"
proof (induction i hi step f s rule: for_loop.induct)
  case (1 i hi step f s)
  show ?case
  proof (cases "i < hi \<and> 0 < step")
    case True
    have "for_loop (i + step) hi step f (f i s) = for_loop (i + step) hi step g (f i s)"
      by (intro "1.IH") (use True "1.prems" in auto)
    moreover have "f i s = g i s" using True "1.prems" by simp
    ultimately show ?thesis using True by (simp add: for_loop_unfold)
  next
    case False
    show ?thesis by (simp only: for_loop_stop [OF False])
  qed
qed

lemma for_loop_cong:
  assumes "\<And>j t. lo \<le> j \<Longrightarrow> j < hi \<Longrightarrow> f j t = g j t"
  shows "for_loop lo hi step f s = for_loop lo hi step g s"
  using for_loop_cong_from [of lo lo hi f g step s] assms by simp

lemma NaN_arith [simp]:
  "a + NaN = NaN" "NaN + a = NaN" "a - NaN = NaN" "NaN - a = NaN"
  "a * NaN = NaN" "NaN * a = NaN" "a / NaN = NaN" "NaN / a = NaN" "\<bar>NaN\<bar> = NaN"
  by (cases a; simp add: plus_jsnum_def minus_jsnum_def times_jsnum_def divide_jsnum_def
      abs_jsnum_def)+

lemma getU8_take:
  "0 \<le> i \<Longrightarrow> i < int n \<Longrightarrow> n \<le> length a \<Longrightarrow> getU8 (take n a) i = getU8 a i"
  by (simp add: getU8_def)

lemma similarity_ignores_rest:
  assumes "length fp1 \<le> length fp2"
  shows "getFingerprintSimilarity fp1 fp2 = getFingerprintSimilarity fp1 (take (length fp1) fp2)"
proof -
  have "for_loop 0 (int (length fp1)) 1 (\<lambda>i diff. diff + \<bar>getU8 fp1 i - getU8 fp2 i\<bar>) (Fin 0)
      = for_loop 0 (int (length fp1)) 1
          (\<lambda>i diff. diff + \<bar>getU8 fp1 i - getU8 (take (length fp1) fp2) i\<bar>) (Fin 0)"
    by (rule for_loop_cong) (simp add: getU8_take assms)
  then show ?thesis by (simp add: getFingerprintSimilarity_def)
qed

lemma similarity_short_NaN:
  assumes "length fp2 < length fp1"
  shows "getFingerprintSimilarity fp1 fp2 = NaN"
proof -
  define body where "body = (\<lambda>i diff. diff + \<bar>getU8 fp1 i - getU8 fp2 i\<bar>)"
  have "int (length fp2) < int (length fp1) \<longrightarrow>
          for_loop 0 (int (length fp1)) 1 body (Fin 0) = NaN"
  proof (rule for_loop_idx [where I = "\<lambda>i d. int (length fp2) < i \<longrightarrow> d = NaN"])
    fix j t assume j: "0 \<le> j" "j < int (length fp1)"
      and t: "int (length fp2) < j \<longrightarrow> t = NaN"
    show "int (length fp2) < j + 1 \<longrightarrow> body j t = NaN"
    proof
      assume "int (length fp2) < j + 1"
      then have "getU8 fp2 j = NaN" by (simp add: getU8_def)
      then show "body j t = NaN" by (simp add: body_def)
    qed
  qed simp_all
  then have "for_loop 0 (int (length fp1)) 1 body (Fin 0) = NaN" using assms by simp
  then show ?thesis by (simp add: getFingerprintSimilarity_def body_def)
qed


lemma merge_eval_neg_threshold:
  "mergeFocusStack acc1x1 [Fin 0] new1x1 (Fin 0) (Fin 0) (Fin 0) (Fin (- 1)) False =
     Inr \<lparr>imageData = \<lparr>width = 1, height = 1, data = [10, 20, 30, 255]\<rparr>,
          sharpness = [Fin 0]\<rparr>"
  by (simp add: mergeFocusStack_def acc1x1_def new1x1_def typedSet_def computeSharpnessMap_1x1
      for_loop_unfold for_loop_done mergePixel_def num_def Let_def getF32_def)

lemma merge_eval_NaN:
  "mergeFocusStack acc1x1 [NaN] new1x1 (Fin 0) (Fin 0) (Fin 5) (Fin 20) False =
     Inr \<lparr>imageData = \<lparr>width = 1, height = 1, data = [10, 20, 30, 0]\<rparr>,
          sharpness = [Fin 0]\<rparr>"
  by (simp add: mergeFocusStack_def acc1x1_def new1x1_def typedSet_def computeSharpnessMap_1x1
      for_loop_unfold for_loop_done mergePixel_def num_def Let_def getF32_def setU8C_def
      setF32_def)

lemma merge_eval_mismatch:
  "mergeFocusStack acc1x1 [Fin 0] new2x2 (Fin 0) (Fin 0) (Fin 5) (Fin 20) False =
     Inr \<lparr>imageData = \<lparr>width = 1, height = 1, data = [10, 20, 30, 0]\<rparr>,
          sharpness = [Fin 0]\<rparr>"
  by (simp add: mergeFocusStack_def acc1x1_def new2x2_def typedSet_def computeSharpnessMap_1x1
      for_loop_unfold for_loop_done mergePixel_def num_def Let_def getF32_def setU8C_def
      setF32_def)

lemma sim_eval: "getFingerprintSimilarity [10] [10, 20] = Fin 1"
  by (simp add: getFingerprintSimilarity_def for_loop_unfold for_loop_done getU8_def num_def)

section \<open>The exhaustive search\<close>

lemma jlt_trans: "(a::jsnum) < b \<Longrightarrow> b < c \<Longrightarrow> a < c"
  by (cases a; cases b; cases c; simp add: less_jsnum_def)

lemma jlt_PInf: "(a::jsnum) < b \<Longrightarrow> a < PInf"
  by (cases a; cases b; simp add: less_jsnum_def)

lemma jlt_irrefl [simp]: "\<not> (a::jsnum) < a"
  by (cases a; simp add: less_jsnum_def)

lemma searchStep_eq:
  "searchStep ep ec wd ht pad dy dx s =
     (if 0 < snd (scoreAt ep ec wd ht pad dx dy) then
        (if fst (scoreAt ep ec wd ht pad dx dy) < minDiff s
         then s\<lparr>scores := (scores s)((dx, dy) \<mapsto> fst (scoreAt ep ec wd ht pad dx dy)),
                minDiff := fst (scoreAt ep ec wd ht pad dx dy), bestX := dx, bestY := dy\<rparr>
         else s\<lparr>scores := (scores s)((dx, dy) \<mapsto> fst (scoreAt ep ec wd ht pad dx dy))\<rparr>)
      else s)"
  by (simp add: searchStep_def Let_def split: prod.splits)

lemma searchInv_step:
  fixes sc :: "int \<times> int \<Rightarrow> jsnum" and cnt :: "int \<times> int \<Rightarrow> nat"
  defines "step \<equiv> \<lambda>k s.
     (if 0 < cnt k then
        (if sc k < minDiff s
         then s\<lparr>scores := (scores s)(k \<mapsto> sc k), minDiff := sc k, bestX := fst k,
                bestY := snd k\<rparr>
         else s\<lparr>scores := (scores s)(k \<mapsto> sc k)\<rparr>)
      else s)"
  assumes inv: "searchInv sc cnt D s" and new: "k \<notin> D" and ord: "\<forall>k' \<in> D. scan_le k' k"
  shows "searchInv sc cnt (insert k D) (step k s)"
proof (cases "0 < cnt k")
  case False
  then have "step k s = s" by (simp add: step_def)
  then show ?thesis using inv False new by (auto simp: searchInv_def)
next
  case cnt: True
  have sco: "\<forall>k'. scores s k' = (if k' \<in> D \<and> 0 < cnt k' then Some (sc k') else None)"
    using inv by (simp add: searchInv_def)
  show ?thesis
  proof (cases "sc k < minDiff s")
    case True
    then have st: "step k s = s\<lparr>scores := (scores s)(k \<mapsto> sc k), minDiff := sc k,
        bestX := fst k, bestY := snd k\<rparr>"
      using cnt by (simp add: step_def)
    have prev: "\<forall>k' \<in> D. 0 < cnt k' \<longrightarrow> \<not> sc k' < minDiff s"
      using inv True by (auto simp: searchInv_def dest: jlt_PInf)
    have a: "\<not> sc k' < sc k \<and> sc k' \<noteq> sc k" if "k' \<in> D" "0 < cnt k'" for k'
      using prev that True jlt_trans by metis
    show ?thesis
      unfolding searchInv_def st
      using sco cnt a jlt_PInf [OF True] by (auto simp: scan_le_def)
  next
    case False
    then have st: "step k s = s\<lparr>scores := (scores s)(k \<mapsto> sc k)\<rparr>"
      using cnt by (simp add: step_def)
    show ?thesis
      unfolding searchInv_def st
      using inv sco cnt False ord new
      by (auto simp: searchInv_def)
  qed
qed

lemma scanned_start: "scanned sw (- sw) (- sw) = {}"
  by (auto simp: scanned_def)

lemma scanned_insert:
  assumes "- sw \<le> dx" "dx \<le> sw" "- sw \<le> dy"
  shows "scanned sw dy (dx + 1) = insert (dx, dy) (scanned sw dy dx)"
  using assms by (auto simp: scanned_def)

lemma scanned_next_row: "scanned sw dy (sw + 1) = scanned sw (dy + 1) (- sw)"
  by (auto simp: scanned_def)

lemma scanned_all:
  "scanned sw (sw + 1) (- sw) =
     {k. - sw \<le> fst k \<and> fst k \<le> sw \<and> - sw \<le> snd k \<and> snd k \<le> sw}"
  by (auto simp: scanned_def)

lemma scanned_before: "k' \<in> scanned sw dy dx \<Longrightarrow> scan_le k' (dx, dy) \<and> k' \<noteq> (dx, dy)"
  by (cases k') (auto simp: scanned_def scan_le_def)

lemma alignSearch_inv:
  fixes ep ec :: "jsnum list" and wd ht sw :: int
  defines "sc \<equiv> \<lambda>k. fst (scoreAt ep ec wd ht (sw + 2) (fst k) (snd k))"
    and "cnt \<equiv> \<lambda>k. snd (scoreAt ep ec wd ht (sw + 2) (fst k) (snd k))"
  assumes sw: "0 \<le> sw"
  shows "searchInv sc cnt
     {k. - sw \<le> fst k \<and> fst k \<le> sw \<and> - sw \<le> snd k \<and> snd k \<le> sw}
     (alignSearch ep ec wd ht sw)"
proof -
  have step: "searchInv sc cnt (scanned sw dy (dx + 1))
                (searchStep ep ec wd ht (sw + 2) dy dx u)"
    if "- sw \<le> dx" "dx < sw + 1" "- sw \<le> dy" "searchInv sc cnt (scanned sw dy dx) u"
    for dx dy u
  proof -
    have e: "searchStep ep ec wd ht (sw + 2) dy dx u =
        (if 0 < cnt (dx, dy) then
           (if sc (dx, dy) < minDiff u
            then u\<lparr>scores := (scores u)((dx, dy) \<mapsto> sc (dx, dy)), minDiff := sc (dx, dy),
                   bestX := fst (dx, dy), bestY := snd (dx, dy)\<rparr>
            else u\<lparr>scores := (scores u)((dx, dy) \<mapsto> sc (dx, dy))\<rparr>)
         else u)"
      by (simp add: searchStep_eq sc_def cnt_def)
    have "searchInv sc cnt (insert (dx, dy) (scanned sw dy dx))
            (searchStep ep ec wd ht (sw + 2) dy dx u)"
      unfolding e
      by (rule searchInv_step [OF that(4)]) (use scanned_before in blast)+
    then show ?thesis using scanned_insert [of sw dx dy] that by simp
  qed
  have row: "searchInv sc cnt (scanned sw (dy + 1) (- sw))
               (for_loop (- sw) (sw + 1) 1 (\<lambda>dx. searchStep ep ec wd ht (sw + 2) dy dx) t)"
    if "- sw \<le> dy" "searchInv sc cnt (scanned sw dy (- sw)) t" for dy t
  proof -
    have "searchInv sc cnt (scanned sw dy (sw + 1))
            (for_loop (- sw) (sw + 1) 1 (\<lambda>dx. searchStep ep ec wd ht (sw + 2) dy dx) t)"
      by (rule for_loop_idx [where I = "\<lambda>dx u. searchInv sc cnt (scanned sw dy dx) u"])
        (use sw that step in auto)
    then show ?thesis by (simp add: scanned_next_row)
  qed
  have "searchInv sc cnt (scanned sw (sw + 1) (- sw)) (alignSearch ep ec wd ht sw)"
    unfolding alignSearch_def
  proof (rule for_loop_idx [where I = "\<lambda>dy t. searchInv sc cnt (scanned sw dy (- sw)) t"])
    show "searchInv sc cnt (scanned sw (- sw) (- sw))
            \<lparr>bestX = 0, bestY = 0, minDiff = PInf, scores = Map.empty\<rparr>"
      by (simp add: scanned_start searchInv_def)
  qed (use sw row in auto)
  then show ?thesis by (simp add: scanned_all)
qed

lemma square_range: "(d::jsnum) * d \<noteq> NInf \<and> \<not> d * d < Fin 0"
  by (cases d) (simp_all add: times_jsnum_def less_jsnum_def)


lemma add_range:
  "(a::jsnum) \<noteq> NInf \<and> \<not> a < Fin 0 \<Longrightarrow> b \<noteq> NInf \<and> \<not> b < Fin 0
     \<Longrightarrow> a + b \<noteq> NInf \<and> \<not> a + b < Fin 0"
  by (cases a; cases b) (simp_all add: plus_jsnum_def less_jsnum_def)




lemma scoreAt_range:
  "fst (scoreAt ep ec wd ht pad dx dy) \<noteq> NInf \<and> \<not> fst (scoreAt ep ec wd ht pad dx dy) < Fin 0"
  unfolding scoreAt_def
proof (rule for_loop_inv [where P = "\<lambda>t. fst t \<noteq> NInf \<and> \<not> fst t < Fin 0"])
  fix y :: int and t :: "jsnum \<times> nat"
  assume t: "fst t \<noteq> NInf \<and> \<not> fst t < Fin 0"
  show "fst (for_loop pad (wd - pad) 2
           (\<lambda>x (diff, count).
              let idx1 = y * wd + x; idx2 = (y + dy) * wd + (x + dx);
                  val1 = getF32 ep idx1; val2 = getF32 ec idx2; d = val1 - val2
              in (diff + d * d, Suc count)) t) \<noteq> NInf \<and>
        \<not> fst (for_loop pad (wd - pad) 2
           (\<lambda>x (diff, count).
              let idx1 = y * wd + x; idx2 = (y + dy) * wd + (x + dx);
                  val1 = getF32 ep idx1; val2 = getF32 ec idx2; d = val1 - val2
              in (diff + d * d, Suc count)) t) < Fin 0"
  proof (rule for_loop_inv [where P = "\<lambda>t. fst t \<noteq> NInf \<and> \<not> fst t < Fin 0"])
    fix x :: int and u :: "jsnum \<times> nat"
    assume u: "fst u \<noteq> NInf \<and> \<not> fst u < Fin 0"
    show "fst ((\<lambda>(diff, count).
              let idx1 = y * wd + x; idx2 = (y + dy) * wd + (x + dx);
                  val1 = getF32 ep idx1; val2 = getF32 ec idx2; d = val1 - val2
              in (diff + d * d, Suc count)) u) \<noteq> NInf \<and>
        \<not> fst ((\<lambda>(diff, count).
              let idx1 = y * wd + x; idx2 = (y + dy) * wd + (x + dx);
                  val1 = getF32 ep idx1; val2 = getF32 ec idx2; d = val1 - val2
              in (diff + d * d, Suc count)) u) < Fin 0"
      using add_range [OF u square_range] by (cases u) (auto simp: Let_def)
  qed (rule t)
qed (simp add: less_jsnum_def)


lemma scoreAt_no_rows: "ht - pad \<le> pad \<Longrightarrow> scoreAt ep ec wd ht pad dx dy = (Fin 0, 0)"
  by (simp add: scoreAt_def for_loop_done)

lemma scoreAt_no_columns: "wd - pad \<le> pad \<Longrightarrow> scoreAt ep ec wd ht pad dx dy = (Fin 0, 0)"
  unfolding scoreAt_def
  by (rule for_loop_inv [where P = "\<lambda>t. t = (Fin 0, 0)"]) (simp_all add: for_loop_done)

lemma scoreAt_sampled:
  assumes "0 < snd (scoreAt ep ec wd ht pad dx dy)"
  shows "pad < ht - pad \<and> pad < wd - pad"
  using assms scoreAt_no_rows [of ht pad ep ec wd dx dy]
    scoreAt_no_columns [of wd pad ep ec ht dx dy]
  by (cases "ht - pad \<le> pad"; cases "wd - pad \<le> pad") simp_all

lemma jlt_Fin_cases:
  assumes "v < PInf" "\<not> v < Fin m" "\<not> Fin m < v"
  shows "v = Fin m"
  using assms by (cases v) (simp_all add: less_jsnum_def)

lemma scoreAt_flat8x8:
  assumes "- 1 \<le> dx" "dx \<le> 1" "- 1 \<le> dy" "dy \<le> 1"
  shows "scoreAt flat8x8 flat8x8 8 8 3 dx dy = (Fin 0, 1)"
proof -
  have "getF32 flat8x8 ((3 + dy) * 8 + (3 + dx)) = Fin 0"
    using assms by (simp add: getF32_def flat8x8_def)
  moreover have "getF32 flat8x8 27 = Fin 0" by (simp add: getF32_def flat8x8_def)
  ultimately show ?thesis
    by (simp add: scoreAt_def for_loop_unfold for_loop_done Let_def)
qed

section \<open>Refinement, deadband and confidence\<close>

lemma num_or_nan_cases: "num_or_nan v \<Longrightarrow> v = NaN \<or> (\<exists>a. v = Fin a)"
  by (cases v) (simp_all add: num_or_nan_def)




lemma alignResult_confidence:
  assumes "minDiff s = PInf \<or> (\<exists>a. minDiff s = Fin a \<and> 0 \<le> a \<and> 0 < wd * ht)"
    and "0 \<le> wd * ht"
  shows "confidence (alignResult st scale wd ht s) =
           Math_max (Fin 0) (Fin 1 - minDiff s / num (wd * ht * 100)) \<and>
         (\<exists>c. confidence (alignResult st scale wd ht s) = Fin c \<and> 0 \<le> c \<and> c \<le> 1)"
proof -
  have f: "confidence (alignResult st scale wd ht s) =
           Math_max (Fin 0) (Fin 1 - minDiff s / num (wd * ht * 100))"
    by (simp add: alignResult_def Let_def)
  have "\<exists>c. Math_max (Fin 0) (Fin 1 - minDiff s / num (wd * ht * 100)) = Fin c \<and>
            0 \<le> c \<and> c \<le> 1"
    using assms(1)
  proof
    assume i: "minDiff s = PInf"
    have "0 \<le> (of_int (wd * ht * 100) :: real)"
      using assms(2) by (simp only: of_int_0_le_iff)
    then have "minDiff s / num (wd * ht * 100) = PInf"
      unfolding i num_def divide_jsnum_def by (simp only: jdiv.simps if_True)
    then show ?thesis by (simp add: minus_jsnum_def less_jsnum_def)
  next
    assume "\<exists>a. minDiff s = Fin a \<and> 0 \<le> a \<and> 0 < wd * ht"
    then obtain a where a: "minDiff s = Fin a" "0 \<le> a" "0 < wd * ht" by blast
    have "0 < wd * ht * 100" using a(3) by simp
    then have p: "0 < (of_int (wd * ht * 100) :: real)" by (simp only: of_int_0_less_iff)
    then have q: "0 \<le> a / of_int (wd * ht * 100)" using a(2) by simp
    have ne: "(of_int (wd * ht * 100) :: real) \<noteq> 0" using p by linarith
    have "minDiff s / num (wd * ht * 100) = Fin (a / of_int (wd * ht * 100))"
      unfolding a(1) num_def by (rule Fin_arith(4) [OF ne])
    then show ?thesis using q by (cases "1 - a / of_int (wd * ht * 100) < 0") (auto simp: not_less)
  qed
  then show ?thesis using f by simp
qed






lemma computeEdgeMap_sobelAt:
  "computeEdgeMap pixels wd ht =
     for_loop 1 (int ht - 1) 1
       (\<lambda>y. for_loop 1 (int wd - 1) 1
          (\<lambda>x edges. setF32 edges (y * int wd + x) (sobelAt pixels wd y x)))
       (replicate (wd * ht) (Fin 0))"
  by (simp add: computeEdgeMap_def sobelAt_def Let_def)

lemma fastBlur_blurAt:
  "fastBlur pixels wd ht =
     for_loop 1 (int ht - 1) 1
       (\<lambda>y. for_loop 1 (int wd - 1) 1
          (\<lambda>x output. setU8 output (y * int wd + x) (blurAt pixels wd y x)))
       (replicate (length pixels) 0)"
  by (simp add: fastBlur_def blurAt_def Let_def)



lemma alignSearch_minDiff:
  assumes "0 \<le> sw"
  shows "minDiff (alignSearch ep ec wd ht sw) = PInf \<or>
    (\<exists>a. minDiff (alignSearch ep ec wd ht sw) = Fin a \<and> 0 \<le> a \<and>
         sw + 2 < ht - (sw + 2) \<and> sw + 2 < wd - (sw + 2))"
proof -
  define s where "s = alignSearch ep ec wd ht sw"
  define sc where "sc = (\<lambda>k. fst (scoreAt ep ec wd ht (sw + 2) (fst k) (snd k)))"
  define cnt where "cnt = (\<lambda>k. snd (scoreAt ep ec wd ht (sw + 2) (fst k) (snd k)))"
  define D where "D = {k :: int \<times> int. - sw \<le> fst k \<and> fst k \<le> sw \<and> - sw \<le> snd k \<and> snd k \<le> sw}"
  have inv: "searchInv sc cnt D s"
    unfolding sc_def cnt_def D_def s_def by (rule alignSearch_inv [OF assms(1)])
  show ?thesis
  proof (cases "minDiff s = PInf")
    case True
    then show ?thesis by (simp add: s_def)
  next
    case False
    then have b: "0 < cnt (bestX s, bestY s)" "sc (bestX s, bestY s) = minDiff s"
        "minDiff s < PInf"
      using inv unfolding searchInv_def by blast+
    have r: "minDiff s \<noteq> NInf \<and> \<not> minDiff s < Fin 0"
      using scoreAt_range [of ep ec wd ht "sw + 2" "bestX s" "bestY s"] b(2)
      by (simp add: sc_def)
    obtain a where a: "minDiff s = Fin a" "0 \<le> a"
      using r b(3) by (cases "minDiff s") (simp_all add: less_jsnum_def)
    have "sw + 2 < ht - (sw + 2) \<and> sw + 2 < wd - (sw + 2)"
      using scoreAt_sampled [of ep ec wd ht "sw + 2" "bestX s" "bestY s"] b(1)
      by (simp add: cnt_def)
    then show ?thesis using a by (simp add: s_def)
  qed
qed


lemma alignFrames_Inr:
  assumes "alignFrames st canvas prev cur = Inr r"
  shows "\<exists>smallPrev smallCur.
     resizeAndCropImageData st canvas prev (ALIGNMENT_DOWNSAMPLE st) = Inr smallPrev \<and>
     resizeAndCropImageData st canvas cur (ALIGNMENT_DOWNSAMPLE st) = Inr smallCur \<and>
     r = alignResult st
           (num (int (width prev)) * Fin (CROP_RATIO st) / num (int (ALIGNMENT_DOWNSAMPLE st)))
           (int (ALIGNMENT_DOWNSAMPLE st)) (int (height smallPrev))
           (alignSearch (edgesOf smallPrev (ALIGNMENT_DOWNSAMPLE st))
              (edgesOf smallCur (ALIGNMENT_DOWNSAMPLE st))
              (int (ALIGNMENT_DOWNSAMPLE st)) (int (height smallPrev))
              (int (SEARCH_WINDOW st)))"
  using assms by (auto simp: alignFrames_def Let_def edgesOf_def split: sum.splits)

lemma alignFrames_resized:
  assumes "resizeAndCropImageData st canvas prev (ALIGNMENT_DOWNSAMPLE st) = Inr smallPrev"
    and "resizeAndCropImageData st canvas cur (ALIGNMENT_DOWNSAMPLE st) = Inr smallCur"
  shows "alignFrames st canvas prev cur =
     Inr (alignResult st
           (num (int (width prev)) * Fin (CROP_RATIO st) / num (int (ALIGNMENT_DOWNSAMPLE st)))
           (int (ALIGNMENT_DOWNSAMPLE st)) (int (height smallPrev))
           (alignSearch (edgesOf smallPrev (ALIGNMENT_DOWNSAMPLE st))
              (edgesOf smallCur (ALIGNMENT_DOWNSAMPLE st))
              (int (ALIGNMENT_DOWNSAMPLE st)) (int (height smallPrev))
              (int (SEARCH_WINDOW st))))"
  using assms by (simp add: alignFrames_def Let_def edgesOf_def)

section \<open>Downsampling\<close>





section \<open>Frames of one colour\<close>

lemma interior_index:
  fixes x y :: int and wd ht :: nat
  assumes "1 \<le> y" "y < int ht - 1" "1 \<le> x" "x < int wd - 1"
  shows "0 \<le> y * int wd + x" "y * int wd + x < int (wd * ht)"
  using cell_in_range [of y "int ht" x "int wd"] assms by simp_all

lemma raster_write_F32:
  fixes f :: "int \<Rightarrow> int \<Rightarrow> jsnum" and init :: "jsnum list" and wd ht :: nat
  assumes len: "length init = wd * ht"
  defines "res \<equiv> for_loop 1 (int ht - 1) 1
      (\<lambda>y. for_loop 1 (int wd - 1) 1 (\<lambda>x e. setF32 e (y * int wd + x) (f y x))) init"
  shows "length res = wd * ht \<and>
    (\<forall>k. res ! k =
      (if 1 \<le> int k div int wd \<and> int k div int wd < int ht - 1 \<and>
          1 \<le> int k mod int wd \<and> int k mod int wd < int wd - 1
       then f (int k div int wd) (int k mod int wd) else init ! k))"
  unfolding res_def
proof (rule raster_loops [where ok = "\<lambda>t. length t = wd * ht" and cell = "\<lambda>t k. t ! k"
      and W = "int wd" and g = "\<lambda>y x c. f y x"])
  fix y x :: int and t :: "jsnum list"
  assume a: "1 \<le> y" "y < int ht - 1" "1 \<le> x" "x < int wd - 1" "length t = wd * ht"
  show "length (setF32 t (y * int wd + x) (f y x)) = wd * ht \<and>
        (\<forall>k. setF32 t (y * int wd + x) (f y x) ! k =
          (if int k = y * int wd + x then f y x else t ! k))"
    using a interior_index [OF a(1-4)] by (simp add: nth_setF32)
qed (simp_all add: len)

lemma raster_write_U8:
  fixes f :: "int \<Rightarrow> int \<Rightarrow> jsnum" and init :: "nat list" and wd ht :: nat
  assumes len: "length init = wd * ht"
  defines "res \<equiv> for_loop 1 (int ht - 1) 1
      (\<lambda>y. for_loop 1 (int wd - 1) 1 (\<lambda>x e. setU8 e (y * int wd + x) (f y x))) init"
  shows "length res = wd * ht \<and>
    (\<forall>k. res ! k =
      (if 1 \<le> int k div int wd \<and> int k div int wd < int ht - 1 \<and>
          1 \<le> int k mod int wd \<and> int k mod int wd < int wd - 1
       then ToUint8 (f (int k div int wd) (int k mod int wd)) else init ! k))"
  unfolding res_def
proof (rule raster_loops [where ok = "\<lambda>t. length t = wd * ht" and cell = "\<lambda>t k. t ! k"
      and W = "int wd" and g = "\<lambda>y x c. ToUint8 (f y x)"])
  fix y x :: int and t :: "nat list"
  assume a: "1 \<le> y" "y < int ht - 1" "1 \<le> x" "x < int wd - 1" "length t = wd * ht"
  show "length (setU8 t (y * int wd + x) (f y x)) = wd * ht \<and>
        (\<forall>k. setU8 t (y * int wd + x) (f y x) ! k =
          (if int k = y * int wd + x then ToUint8 (f y x) else t ! k))"
    using a interior_index [OF a(1-4)] by (simp add: nth_setU8)
qed (simp_all add: len)

lemma line_write_U8:
  fixes f :: "int \<Rightarrow> jsnum" and init :: "nat list" and n :: nat
  assumes len: "length init = n"
  defines "res \<equiv> for_loop 0 (int n) 1 (\<lambda>i e. setU8 e i (f i)) init"
  shows "length res = n \<and> (\<forall>k < n. res ! k = ToUint8 (f (int k)))"
proof -
  have r: "length res = n \<and>
    (\<forall>k. res ! k =
       (if int k div int n = 0 \<and> 0 \<le> int k mod int n \<and> int k mod int n < int n
        then ToUint8 (f (int k mod int n)) else init ! k))"
    unfolding res_def
  proof (rule row_loop [where ok = "\<lambda>t. length t = n" and cell = "\<lambda>t k. t ! k"
        and W = "int n" and y = 0 and g = "\<lambda>x c. ToUint8 (f x)"])
    fix x :: int and u :: "nat list"
    assume a: "0 \<le> x" "x < int n" "length u = n"
    show "length (setU8 u x (f x)) = n \<and>
          (\<forall>k. setU8 u x (f x) ! k = (if int k = 0 * int n + x then ToUint8 (f x) else u ! k))"
      using a by (simp add: nth_setU8)
  qed (simp_all add: len)
  show ?thesis
  proof (intro conjI allI impI)
    fix k assume "k < n"
    then have "int k div int n = 0" "int k mod int n = int k" by simp_all
    then show "res ! k = ToUint8 (f (int k))" using r \<open>k < n\<close> by simp
  qed (use r in simp)
qed

lemma length_solid [simp]: "length (concat (replicate n [r, g, b, a])) = 4 * n"
  by (induction n) simp_all

lemma nth_quad:
  assumes "ch < 4"
  shows "(r # g # b # a # rest) ! ch = [r, g, b, a] ! ch"
proof -
  have "ch = 0 \<or> ch = 1 \<or> ch = 2 \<or> ch = 3" using assms by arith
  then show ?thesis by (elim disjE) simp_all
qed

lemma nth_solid:
  "p < n \<Longrightarrow> ch < 4 \<Longrightarrow> concat (replicate n [r, g, b, a]) ! (4 * p + ch) = [r, g, b, a] ! ch"
proof (induction n arbitrary: p)
  case 0
  then show ?case by simp
next
  case (Suc n)
  show ?case
  proof (cases p)
    case 0
    have "concat (replicate (Suc n) [r, g, b, a]) ! (4 * p + ch) =
        (r # g # b # a # concat (replicate n [r, g, b, a])) ! ch"
      using 0 by simp
    then show ?thesis using nth_quad [OF Suc.prems(2)] by (simp only:)
  next
    case (Suc q)
    let ?Q = "[r, g, b, a]"
    have e: "concat (replicate n ?Q) ! (4 * q + ch) = ?Q ! ch"
      using Suc.IH [of q] Suc.prems Suc by simp
    have idx: "4 * p + ch = length ?Q + (4 * q + ch)" using Suc by simp
    have "concat (replicate (Suc n) ?Q) ! (4 * p + ch) =
        (?Q @ concat (replicate n ?Q)) ! (length ?Q + (4 * q + ch))"
      by (simp only: idx replicate_Suc concat.simps)
    also have "\<dots> = concat (replicate n ?Q) ! (4 * q + ch)"
      by (rule nth_append_length_plus)
    finally show ?thesis using e by (simp only:)
  qed
qed

lemma ToUint8_lt: "ToUint8 v < 256"
  by (cases v) (simp_all add: nat_less_iff)

lemma ToUint8_byte: "v < 256 \<Longrightarrow> ToUint8 (Fin (real v)) = v"
  by simp

lemma getU8_replicate: "0 \<le> i \<Longrightarrow> i < int n \<Longrightarrow> getU8 (replicate n v) i = Fin (real v)"
  by (simp add: getU8_def)

lemma getU8_solid:
  assumes "k < n"
  shows "getU8 (concat (replicate n [r, g, b, a])) (int k * 4) = Fin (real r)"
    and "getU8 (concat (replicate n [r, g, b, a])) (int k * 4 + 1) = Fin (real g)"
    and "getU8 (concat (replicate n [r, g, b, a])) (int k * 4 + 2) = Fin (real b)"
proof -
  let ?d = "concat (replicate n [r, g, b, a])"
  have n: "?d ! (4 * k + 0) = r" "?d ! (4 * k + 1) = g" "?d ! (4 * k + 2) = b"
    using nth_solid [OF assms, of 0 r g b a] nth_solid [OF assms, of 1 r g b a]
      nth_solid [OF assms, of 2 r g b a] by simp_all
  have l: "4 * k + 0 < length ?d" "4 * k + 1 < length ?d" "4 * k + 2 < length ?d"
    using assms by simp_all
  have i: "int k * 4 = int (4 * k + 0)" "int k * 4 + 1 = int (4 * k + 1)"
      "int k * 4 + 2 = int (4 * k + 2)" by simp_all
  show "getU8 ?d (int k * 4) = Fin (real r)"
    unfolding i(1) getU8_nat [OF l(1)] n(1) ..
  show "getU8 ?d (int k * 4 + 1) = Fin (real g)"
    unfolding i(2) getU8_nat [OF l(2)] n(2) ..
  show "getU8 ?d (int k * 4 + 2) = Fin (real b)"
    unfolding i(3) getU8_nat [OF l(3)] n(3) ..
qed

lemma toGrayscale_solid:
  "toGrayscale (solidFrame w h c) = replicate (w * h) (grayOf c)"
proof -
  obtain r g b a where c: "c = (r, g, b, a)" by (cases c) auto
  define d where "d = concat (replicate (w * h) [r, g, b, a])"
  define f where "f = (\<lambda>i. Fin 0.299 * getU8 d (i * 4) + Fin 0.587 * getU8 d (i * 4 + 1)
                 + Fin 0.114 * getU8 d (i * 4 + 2))"
  have t: "toGrayscale (solidFrame w h c) =
      for_loop 0 (int (w * h)) 1 (\<lambda>i e. setU8 e i (f i)) (replicate (w * h) 0)"
    by (simp add: toGrayscale_def solidFrame_def c f_def d_def Let_def)
  have l: "length (toGrayscale (solidFrame w h c)) = w * h \<and>
      (\<forall>k < w * h. toGrayscale (solidFrame w h c) ! k = ToUint8 (f (int k)))"
    unfolding t by (rule line_write_U8) simp
  have v: "ToUint8 (f (int k)) = grayOf c" if k: "k < w * h" for k
    unfolding f_def d_def getU8_solid [OF k] c grayOf_def by simp
  show ?thesis
  proof (rule nth_equalityI)
    show "length (toGrayscale (solidFrame w h c)) = length (replicate (w * h) (grayOf c))"
      using l by simp
  next
    fix k assume "k < length (toGrayscale (solidFrame w h c))"
    then have k: "k < w * h" using l by simp
    then show "toGrayscale (solidFrame w h c) ! k = replicate (w * h) (grayOf c) ! k"
      using l v by simp
  qed
qed

lemma window_index:
  fixes x y i j :: int and w h :: nat
  assumes a: "1 \<le> y" "y < int h - 1" "1 \<le> x" "x < int w - 1"
    and i: "- 1 \<le> i" "i \<le> 1" and j: "- 1 \<le> j" "j \<le> 1"
  shows "0 \<le> (y + i) * int w + (x + j)" "(y + i) * int w + (x + j) < int (w * h)"
  using cell_in_range [of "y + i" "int h" "x + j" "int w"] a i j by simp_all

lemma blurAt_uniform:
  assumes a: "1 \<le> y" "y < int h - 1" "1 \<le> x" "x < int w - 1"
  shows "blurAt (replicate (w * h) v) w y x = Fin (real v)"
proof -
  let ?P = "replicate (w * h) v"
  have rd: "getU8 ?P ((y + i) * int w + (x + j)) = Fin (real v)"
    if "- 1 \<le> i" "i \<le> 1" "- 1 \<le> j" "j \<le> 1" for i j
    using window_index [OF a that] by (intro getU8_replicate)
  have g: "getU8 ?P (y * int w + x - int w - 1) = Fin (real v)"
      "getU8 ?P (y * int w + x - int w) = Fin (real v)"
      "getU8 ?P (y * int w + x - int w + 1) = Fin (real v)"
      "getU8 ?P (y * int w + x - 1) = Fin (real v)"
      "getU8 ?P (y * int w + x) = Fin (real v)"
      "getU8 ?P (y * int w + x + 1) = Fin (real v)"
      "getU8 ?P (y * int w + x + int w - 1) = Fin (real v)"
      "getU8 ?P (y * int w + x + int w) = Fin (real v)"
      "getU8 ?P (y * int w + x + int w + 1) = Fin (real v)"
    using rd [of "- 1" "- 1"] rd [of "- 1" 0] rd [of "- 1" 1] rd [of 0 "- 1"] rd [of 0 0]
      rd [of 0 1] rd [of 1 "- 1"] rd [of 1 0] rd [of 1 1]
    by (simp_all add: algebra_simps)
  show ?thesis unfolding blurAt_def Let_def g by simp
qed

lemma fastBlur_uniform:
  assumes v: "v < 256" and a: "1 \<le> y" "y < int h - 1" "1 \<le> x" "x < int w - 1"
  shows "getU8 (fastBlur (replicate (w * h) v) w h) (y * int w + x) = Fin (real v)"
proof -
  let ?B = "fastBlur (replicate (w * h) v) w h"
  have r: "length ?B = w * h \<and>
    (\<forall>k. ?B ! k =
      (if 1 \<le> int k div int w \<and> int k div int w < int h - 1 \<and>
          1 \<le> int k mod int w \<and> int k mod int w < int w - 1
       then ToUint8 (blurAt (replicate (w * h) v) w (int k div int w) (int k mod int w))
       else replicate (length (replicate (w * h) v)) 0 ! k))"
    unfolding fastBlur_blurAt by (rule raster_write_U8) simp
  define k where "k = nat (y * int w + x)"
  have k: "int k = y * int w + x" "k < w * h"
    using interior_index [OF a] by (simp_all add: k_def nat_less_iff)
  have dm: "int k div int w = y" "int k mod int w = x"
    using a k(1) by simp_all
  have "?B ! k = ToUint8 (blurAt (replicate (w * h) v) w y x)"
    using r a dm by simp
  then have "?B ! k = v" unfolding blurAt_uniform [OF a] using v by simp
  moreover have "k < length ?B" using r k by simp
  ultimately show ?thesis unfolding k(1) [symmetric] by (simp only: getU8_nat)
qed

lemma length_fastBlur [simp]: "length (fastBlur pixels w h) = length pixels"
  unfolding fastBlur_blurAt
  by (rule for_loop_inv [where P = "\<lambda>t. length t = length pixels"];
      (rule for_loop_inv [where P = "\<lambda>t. length t = length pixels"])?; simp)

lemma sobelAt_flat:
  assumes v: "v < 256" and a: "2 \<le> y" "y < int h - 2" "2 \<le> x" "x < int w - 2"
  shows "sobelAt (fastBlur (replicate (w * h) v) w h) w y x = Fin 0"
proof -
  let ?B = "fastBlur (replicate (w * h) v) w h"
  have rd: "getU8 ?B ((y + i) * int w + (x + j)) = Fin (real v)"
    if "- 1 \<le> i" "i \<le> 1" "- 1 \<le> j" "j \<le> 1" for i j
    by (rule fastBlur_uniform [OF v]) (use a that in simp_all)
  have g: "getU8 ?B (y * int w + x - int w - 1) = Fin (real v)"
      "getU8 ?B (y * int w + x - int w) = Fin (real v)"
      "getU8 ?B (y * int w + x - int w + 1) = Fin (real v)"
      "getU8 ?B (y * int w + x - 1) = Fin (real v)"
      "getU8 ?B (y * int w + x + 1) = Fin (real v)"
      "getU8 ?B (y * int w + x + int w - 1) = Fin (real v)"
      "getU8 ?B (y * int w + x + int w) = Fin (real v)"
      "getU8 ?B (y * int w + x + int w + 1) = Fin (real v)"
    using rd [of "- 1" "- 1"] rd [of "- 1" 0] rd [of "- 1" 1] rd [of 0 "- 1"]
      rd [of 0 1] rd [of 1 "- 1"] rd [of 1 0] rd [of 1 1]
    by (simp_all add: algebra_simps)
  show ?thesis unfolding sobelAt_def Let_def g by simp
qed

lemma edgesOf_solid_flat:
  assumes a: "2 \<le> y" "y < int h - 2" "2 \<le> x" "x < int w - 2"
  shows "getF32 (edgesOf (solidFrame w h c) w) (y * int w + x) = Fin 0"
proof -
  define v where "v = grayOf c"
  have v: "v < 256" unfolding v_def grayOf_def by (cases c) (simp add: ToUint8_lt)
  let ?B = "fastBlur (replicate (w * h) v) w h"
  let ?E = "computeEdgeMap ?B w h"
  have hh: "height (solidFrame w h c) = h" by (simp add: solidFrame_def)
  have E: "edgesOf (solidFrame w h c) w = ?E"
    by (simp only: edgesOf_def toGrayscale_solid v_def hh)
  have r: "length ?E = w * h \<and>
    (\<forall>k. ?E ! k =
      (if 1 \<le> int k div int w \<and> int k div int w < int h - 1 \<and>
          1 \<le> int k mod int w \<and> int k mod int w < int w - 1
       then sobelAt ?B w (int k div int w) (int k mod int w)
       else replicate (w * h) (Fin 0) ! k))"
    unfolding computeEdgeMap_sobelAt by (rule raster_write_F32) simp
  have a1: "1 \<le> y" "y < int h - 1" "1 \<le> x" "x < int w - 1" using a by simp_all
  define k where "k = nat (y * int w + x)"
  have k: "int k = y * int w + x" "k < w * h"
    using interior_index [OF a1] by (simp_all add: k_def nat_less_iff)
  have dm: "int k div int w = y" "int k mod int w = x"
    using a k(1) by simp_all
  have "?E ! k = sobelAt ?B w y x" using r a1 dm by simp
  then have "?E ! k = Fin 0" unfolding sobelAt_flat [OF v a] .
  moreover have "k < length ?E" using r k by simp
  ultimately show ?thesis unfolding E k(1) [symmetric] by (simp only: getF32_nat)
qed

lemma scoreAt_zero:
  assumes "\<And>y x. pad \<le> y \<Longrightarrow> y < ht - pad \<Longrightarrow> pad \<le> x \<Longrightarrow> x < wd - pad \<Longrightarrow>
     getF32 ep (y * wd + x) = Fin 0 \<and> getF32 ec ((y + dy) * wd + (x + dx)) = Fin 0"
  shows "fst (scoreAt ep ec wd ht pad dx dy) = Fin 0"
  unfolding scoreAt_def
proof (rule for_loop_inv [where P = "\<lambda>t. fst t = Fin 0"])
  fix y :: int and t :: "jsnum \<times> nat"
  assume y: "pad \<le> y" "y < ht - pad" and t: "fst t = Fin 0"
  show "fst (for_loop pad (wd - pad) 2
           (\<lambda>x (diff, count).
              let idx1 = y * wd + x; idx2 = (y + dy) * wd + (x + dx);
                  val1 = getF32 ep idx1; val2 = getF32 ec idx2; d = val1 - val2
              in (diff + d * d, Suc count)) t) = Fin 0"
  proof (rule for_loop_inv [where P = "\<lambda>t. fst t = Fin 0"])
    fix x :: int and u :: "jsnum \<times> nat"
    assume x: "pad \<le> x" "x < wd - pad" and u: "fst u = Fin 0"
    show "fst ((\<lambda>(diff, count).
              let idx1 = y * wd + x; idx2 = (y + dy) * wd + (x + dx);
                  val1 = getF32 ep idx1; val2 = getF32 ec idx2; d = val1 - val2
              in (diff + d * d, Suc count)) u) = Fin 0"
      using assms [OF y x] u by (cases u) (simp add: Let_def)
  qed (rule t)
qed simp

lemma scoreAt_count_pos:
  assumes "pad < ht - pad" "pad < wd - pad"
  shows "0 < snd (scoreAt ep ec wd ht pad dx dy)"
proof -
  define inner where "inner = (\<lambda>y x (t :: jsnum \<times> nat).
     (case t of (diff, count) \<Rightarrow>
        let idx1 = y * wd + x; idx2 = (y + dy) * wd + (x + dx);
            val1 = getF32 ep idx1; val2 = getF32 ec idx2; d = val1 - val2
        in (diff + d * d, Suc count)))"
  have s: "scoreAt ep ec wd ht pad dx dy =
      for_loop pad (ht - pad) 2 (\<lambda>y. for_loop pad (wd - pad) 2 (inner y)) (Fin 0, 0)"
    by (simp add: scoreAt_def inner_def)
  have keep: "0 < snd (for_loop lo (wd - pad) 2 (inner y) t)" if "0 < snd t" for lo y t
    by (rule for_loop_inv [where P = "\<lambda>t. 0 < snd t"])
      (use that in \<open>auto simp: inner_def Let_def split: prod.splits\<close>)
  have first: "0 < snd (for_loop pad (wd - pad) 2 (inner y) t)" for y t
  proof -
    have "0 < snd (inner y pad t)" by (cases t) (simp add: inner_def Let_def)
    then show ?thesis
      unfolding for_loop_unfold [OF assms(2), of 2 "inner y" t, simplified]
      by (rule keep)
  qed
  have "0 < snd (for_loop (pad + 2) (ht - pad) 2 (\<lambda>y. for_loop pad (wd - pad) 2 (inner y))
                  (for_loop pad (wd - pad) 2 (inner pad) (Fin 0, 0)))"
    by (rule for_loop_inv [where P = "\<lambda>t. 0 < snd t"]) (use first keep in auto)
  then show ?thesis
    unfolding s for_loop_unfold [OF assms(1), of 2 _ "(Fin 0, 0)", simplified] .
qed

lemma sample_in_range:
  fixes cx cw :: real and i tw W :: nat
  assumes "0 \<le> cx" "0 < cw" "cx + cw \<le> real W" "i < tw"
  shows "0 \<le> \<lfloor>cx + (real i + 1 / 2) * cw / real tw\<rfloor>"
    and "\<lfloor>cx + (real i + 1 / 2) * cw / real tw\<rfloor> < int W"
proof -
  have tw: "0 < real tw" using assms(4) by simp
  have "real i + 1 / 2 < real tw" using assms(4) by simp
  then have "(real i + 1 / 2) / real tw < 1" using tw by simp
  then have "(real i + 1 / 2) / real tw * cw < 1 * cw"
    using assms(2) by (intro mult_strict_right_mono)
  then have lt: "(real i + 1 / 2) * cw / real tw < cw" by simp
  have ge: "0 \<le> (real i + 1 / 2) * cw / real tw" using assms(2) by simp
  show "0 \<le> \<lfloor>cx + (real i + 1 / 2) * cw / real tw\<rfloor>" using ge assms(1) by simp
  have "cx + (real i + 1 / 2) * cw / real tw < real W" using lt assms(3) by linarith
  then show "\<lfloor>cx + (real i + 1 / 2) * cw / real tw\<rfloor> < int W"
    by (simp add: floor_less_iff)
qed

lemma pixelAt_solid:
  assumes "0 \<le> sx" "sx < int W" "0 \<le> sy" "sy < int H"
  shows "pixelAt (solidFrame W H (r, g, b, a)) sx sy = [r, g, b, a]"
proof -
  have p: "nat sy * W + nat sx < W * H"
    using cell_in_range_nat [of "nat sy" H "nat sx" W] assms by simp
  have "concat (replicate (W * H) [r, g, b, a]) ! (4 * (nat sy * W + nat sx) + ch) =
      [r, g, b, a] ! ch" if "ch < 4" for ch
    by (rule nth_solid [OF p that])
  from this [of 0] this [of 1] this [of 2] this [of 3]
  show ?thesis using assms by (simp add: pixelAt_def solidFrame_def)
qed

lemma concat_const: "concat (map (\<lambda>k. q) [0..<n]) = concat (replicate n q)"
  by (simp add: map_replicate_const)

lemma nearestCanvas_solid:
  assumes "0 \<le> cx" "0 < cw" "cx + cw \<le> real W" "0 \<le> cy" "0 < ch" "cy + ch \<le> real H"
    and sz: "0 < tw" "0 < th"
  shows "nearestCanvas (solidFrame W H c) (Fin cx, Fin cy, Fin cw, Fin ch) tw th =
     Some (data (solidFrame tw th c))"
proof -
  obtain r g b a where c: "c = (r, g, b, a)" by (cases c) auto
  have px: "pixelAt (solidFrame W H (r, g, b, a))
        \<lfloor>cx + (real (k mod tw) + 1 / 2) * cw / real tw\<rfloor>
        \<lfloor>cy + (real (k div tw) + 1 / 2) * ch / real th\<rfloor> = [r, g, b, a]"
    if k: "k \<in> set [0..<tw * th]" for k
  proof -
    have k': "k < tw * th" using k by simp
    then have "0 < tw" by (cases tw) auto
    then have i: "k mod tw < tw" by simp
    have j: "k div tw < th" using k' by (simp add: less_mult_imp_div_less mult.commute)
    show ?thesis
      by (rule pixelAt_solid)
        (use sample_in_range [OF assms(1-3) i] sample_in_range [OF assms(4-6) j] in simp_all)
  qed
  have m: "map (\<lambda>k. pixelAt (solidFrame W H (r, g, b, a))
        \<lfloor>cx + (real (k mod tw) + 1 / 2) * cw / real tw\<rfloor>
        \<lfloor>cy + (real (k div tw) + 1 / 2) * ch / real th\<rfloor>) [0..<tw * th] =
      map (\<lambda>k. [r, g, b, a]) [0..<tw * th]"
    by (rule map_cong [OF refl px])
  have d: "data (solidFrame tw th (r, g, b, a)) = concat (replicate (tw * th) [r, g, b, a])"
    by (simp add: solidFrame_def)
  have "nearestCanvas (solidFrame W H (r, g, b, a)) (Fin cx, Fin cy, Fin cw, Fin ch) tw th =
      Some (concat (map (\<lambda>k. pixelAt (solidFrame W H (r, g, b, a))
        \<lfloor>cx + (real (k mod tw) + 1 / 2) * cw / real tw\<rfloor>
        \<lfloor>cy + (real (k div tw) + 1 / 2) * ch / real th\<rfloor>) [0..<tw * th]))"
    using sz by (simp add: nearestCanvas_def)
  then show ?thesis unfolding c m concat_const d .
qed

lemma alignSearch_minimum:
  assumes "0 \<le> sw"
    and "- sw \<le> dx" "dx \<le> sw" "- sw \<le> dy" "dy \<le> sw"
    and "0 < snd (scoreAt edgePrev edgeCurr wd ht (sw + 2) dx dy)"
    and "fst (scoreAt edgePrev edgeCurr wd ht (sw + 2) dx dy) = Fin m"
    and "\<forall>dx' dy'. - sw \<le> dx' \<and> dx' \<le> sw \<and> - sw \<le> dy' \<and> dy' \<le> sw \<longrightarrow>
           \<not> fst (scoreAt edgePrev edgeCurr wd ht (sw + 2) dx' dy') < Fin m"
  shows "minDiff (alignSearch edgePrev edgeCurr wd ht sw) = Fin m \<and>
     fst (scoreAt edgePrev edgeCurr wd ht (sw + 2)
            (bestX (alignSearch edgePrev edgeCurr wd ht sw))
            (bestY (alignSearch edgePrev edgeCurr wd ht sw))) = Fin m \<and>
     - sw \<le> bestX (alignSearch edgePrev edgeCurr wd ht sw) \<and>
     bestX (alignSearch edgePrev edgeCurr wd ht sw) \<le> sw \<and>
     - sw \<le> bestY (alignSearch edgePrev edgeCurr wd ht sw) \<and>
     bestY (alignSearch edgePrev edgeCurr wd ht sw) \<le> sw \<and>
     (bestY (alignSearch edgePrev edgeCurr wd ht sw) < dy \<or>
      (bestY (alignSearch edgePrev edgeCurr wd ht sw) = dy \<and>
       bestX (alignSearch edgePrev edgeCurr wd ht sw) \<le> dx))"
proof -
  define s where "s = alignSearch edgePrev edgeCurr wd ht sw"
  define sc where "sc = (\<lambda>k. fst (scoreAt edgePrev edgeCurr wd ht (sw + 2) (fst k) (snd k)))"
  define cnt where "cnt = (\<lambda>k. snd (scoreAt edgePrev edgeCurr wd ht (sw + 2) (fst k) (snd k)))"
  define D where "D = {k :: int \<times> int. - sw \<le> fst k \<and> fst k \<le> sw \<and> - sw \<le> snd k \<and> snd k \<le> sw}"
  have inv: "searchInv sc cnt D s"
    unfolding sc_def cnt_def D_def s_def by (rule alignSearch_inv [OF assms(1)])
  have k: "(dx, dy) \<in> D" "0 < cnt (dx, dy)" "sc (dx, dy) = Fin m"
    using assms by (simp_all add: D_def cnt_def sc_def)
  have low: "\<not> sc k' < Fin m" if "k' \<in> D" for k'
    using assms(8) that by (simp add: D_def sc_def)
  have "\<not> (minDiff s = PInf \<and> bestX s = 0 \<and> bestY s = 0 \<and>
          (\<forall>k \<in> D. 0 < cnt k \<longrightarrow> \<not> sc k < PInf))"
    using k by (auto simp: less_jsnum_def)
  then have b: "(bestX s, bestY s) \<in> D" "sc (bestX s, bestY s) = minDiff s"
      "minDiff s < PInf"
      "\<And>k. k \<in> D \<Longrightarrow> 0 < cnt k \<Longrightarrow>
         \<not> sc k < minDiff s \<and> (sc k = minDiff s \<longrightarrow> scan_le (bestX s, bestY s) k)"
    using inv unfolding searchInv_def by blast+
  have m: "minDiff s = Fin m"
    using jlt_Fin_cases [OF b(3)] low [OF b(1)] b(2) b(4) [OF k(1,2)] k(3) by simp
  have "scan_le (bestX s, bestY s) (dx, dy)" using b(4) [OF k(1,2)] k(3) m by simp
  then show ?thesis
    using m b(1,2) unfolding s_def [symmetric] by (simp add: scan_le_def D_def sc_def)
qed

lemma alignSearch_scores_eq:
  assumes "0 \<le> sw"
  shows "scores (alignSearch ep ec wd ht sw) (dx, dy) =
     (if - sw \<le> dx \<and> dx \<le> sw \<and> - sw \<le> dy \<and> dy \<le> sw \<and>
         0 < snd (scoreAt ep ec wd ht (sw + 2) dx dy)
      then Some (fst (scoreAt ep ec wd ht (sw + 2) dx dy)) else None)"
proof -
  define s where "s = alignSearch ep ec wd ht sw"
  define sc where "sc = (\<lambda>k. fst (scoreAt ep ec wd ht (sw + 2) (fst k) (snd k)))"
  define cnt where "cnt = (\<lambda>k. snd (scoreAt ep ec wd ht (sw + 2) (fst k) (snd k)))"
  define D where "D = {k :: int \<times> int. - sw \<le> fst k \<and> fst k \<le> sw \<and> - sw \<le> snd k \<and> snd k \<le> sw}"
  have inv: "searchInv sc cnt D s"
    unfolding sc_def cnt_def D_def s_def by (rule alignSearch_inv [OF assms(1)])
  then have "scores s (dx, dy) =
      (if (dx, dy) \<in> D \<and> 0 < cnt (dx, dy) then Some (sc (dx, dy)) else None)"
    unfolding searchInv_def by blast
  then show ?thesis unfolding s_def [symmetric] by (simp add: D_def cnt_def sc_def)
qed

lemma Math_sqrt_sum_squares:
  "Math_sqrt (Fin z * Fin z + Fin y * Fin y) = Fin (sqrt (z\<^sup>2 + y\<^sup>2))"
proof -
  have "0 \<le> z * z + y * y" by simp
  then show ?thesis by (simp add: power2_eq_square not_less)
qed

lemma alignResult_flat:
  assumes m: "minDiff s = Fin 0" and bx: "bestX s = - sw" and by': "bestY s = - sw"
    and sc: "\<And>k. scores s k = None \<or> scores s k = Some (Fin 0)"
    and scale: "scale = Fin c" and pos: "0 < wd * ht"
  shows "alignResult st scale wd ht s =
     (if sqrt ((of_int (- sw) * c)\<^sup>2 + (of_int (- sw) * c)\<^sup>2) < DRIFT_DEADBAND st
      then \<lparr>off_x = Fin 0, off_y = Fin 0, confidence = Fin 1\<rparr>
      else \<lparr>off_x = Fin (of_int (- sw) * c), off_y = Fin (of_int (- sw) * c),
             confidence = Fin 1\<rparr>)"
proof -
  have so: "score_or (scores s) k (Fin 0) = Fin 0" for k
    using sc [of k] by (auto simp: score_or_def)
  have "0 < wd * ht * 100" using pos by simp
  then have ne: "(of_int (wd * ht * 100) :: real) \<noteq> 0" by (simp only: of_int_eq_0_iff)
  have d: "Fin 0 / num (wd * ht * 100) = Fin 0"
    unfolding num_def Fin_arith(4) [OF ne] by (simp only: div_0)
  define z where "z = of_int (- sw) * c"
  have f: "num (- sw) * Fin c = Fin z" by (simp add: num_def z_def)
  have sub: "(if Fin (1 / 100000) < \<bar>Fin 0 - Fin 2 * Fin 0 + Fin 0\<bar>
              then num (- sw) + (Fin 0 - Fin 0) / (Fin 2 * (Fin 0 - Fin 2 * Fin 0 + Fin 0))
              else num (- sw)) = num (- sw)"
    by simp
  have "alignResult st scale wd ht s =
     (if sqrt (z\<^sup>2 + z\<^sup>2) < DRIFT_DEADBAND st
      then \<lparr>off_x = Fin 0, off_y = Fin 0, confidence = Fin 1\<rparr>
      else \<lparr>off_x = Fin z, off_y = Fin z, confidence = Fin 1\<rparr>)"
    unfolding alignResult_def Let_def m bx by' so scale sub f d Math_sqrt_sum_squares
    by simp
  then show ?thesis unfolding z_def .
qed

lemma alignFrames_flat:
  assumes sp: "resizeAndCropImageData st canvas prev (ALIGNMENT_DOWNSAMPLE st) =
                 Inr (solidFrame (ALIGNMENT_DOWNSAMPLE st) h c1)"
    and sc: "resizeAndCropImageData st canvas cur (ALIGNMENT_DOWNSAMPLE st) =
                 Inr (solidFrame (ALIGNMENT_DOWNSAMPLE st) h c2)"
    and bh: "2 * (int (SEARCH_WINDOW st) + 2) < int h"
    and bw: "2 * (int (SEARCH_WINDOW st) + 2) < int (ALIGNMENT_DOWNSAMPLE st)"
  shows "alignFrames st canvas prev cur =
     Inr (if sqrt ((of_int (- int (SEARCH_WINDOW st)) *
                     (real (width prev) * CROP_RATIO st / real (ALIGNMENT_DOWNSAMPLE st)))\<^sup>2 +
                   (of_int (- int (SEARCH_WINDOW st)) *
                     (real (width prev) * CROP_RATIO st / real (ALIGNMENT_DOWNSAMPLE st)))\<^sup>2)
              < DRIFT_DEADBAND st
          then \<lparr>off_x = Fin 0, off_y = Fin 0, confidence = Fin 1\<rparr>
          else \<lparr>off_x = Fin (of_int (- int (SEARCH_WINDOW st)) *
                     (real (width prev) * CROP_RATIO st / real (ALIGNMENT_DOWNSAMPLE st))),
                 off_y = Fin (of_int (- int (SEARCH_WINDOW st)) *
                     (real (width prev) * CROP_RATIO st / real (ALIGNMENT_DOWNSAMPLE st))),
                 confidence = Fin 1\<rparr>)"
proof -
  define w where "w = ALIGNMENT_DOWNSAMPLE st"
  define sw where "sw = int (SEARCH_WINDOW st)"
  define ep where "ep = edgesOf (solidFrame w h c1) w"
  define ec where "ec = edgesOf (solidFrame w h c2) w"
  define s where "s = alignSearch ep ec (int w) (int h) sw"
  have sw: "0 \<le> sw" by (simp add: sw_def)
  have bh': "2 * (sw + 2) < int h" and bw': "2 * (sw + 2) < int w"
    using bh bw by (simp_all add: sw_def w_def)
  have hh: "height (solidFrame w h c1) = h" by (simp add: solidFrame_def)
  have zero: "fst (scoreAt ep ec (int w) (int h) (sw + 2) dx dy) = Fin 0"
    if "- sw \<le> dx" "dx \<le> sw" "- sw \<le> dy" "dy \<le> sw" for dx dy
  proof (rule scoreAt_zero)
    fix y x :: int
    assume a: "sw + 2 \<le> y" "y < int h - (sw + 2)" "sw + 2 \<le> x" "x < int w - (sw + 2)"
    have "getF32 ep (y * int w + x) = Fin 0"
      unfolding ep_def by (rule edgesOf_solid_flat) (use a sw in simp_all)
    moreover have "getF32 ec ((y + dy) * int w + (x + dx)) = Fin 0"
      unfolding ec_def by (rule edgesOf_solid_flat) (use a that in simp_all)
    ultimately show "getF32 ep (y * int w + x) = Fin 0 \<and>
        getF32 ec ((y + dy) * int w + (x + dx)) = Fin 0" by simp
  qed
  have cnt: "0 < snd (scoreAt ep ec (int w) (int h) (sw + 2) dx dy)" for dx dy
    by (rule scoreAt_count_pos) (use bh' bw' in simp_all)
  have low: "\<forall>dx' dy'. - sw \<le> dx' \<and> dx' \<le> sw \<and> - sw \<le> dy' \<and> dy' \<le> sw \<longrightarrow>
           \<not> fst (scoreAt ep ec (int w) (int h) (sw + 2) dx' dy') < Fin 0"
    using zero by simp
  have first: "- sw \<le> - sw" "- sw \<le> sw" using sw by simp_all
  have b: "minDiff s = Fin 0" "bestX s = - sw" "bestY s = - sw"
    using alignSearch_minimum [OF sw first first cnt zero [OF first first] low]
    unfolding s_def [symmetric] by auto
  have scs: "scores s k = None \<or> scores s k = Some (Fin 0)" for k
  proof (cases k)
    case (Pair dx dy)
    show ?thesis
      unfolding Pair s_def alignSearch_scores_eq [OF sw] using zero by simp
  qed
  have "real w \<noteq> 0" using bw' sw by auto
  then have scale: "num (int (width prev)) * Fin (CROP_RATIO st) / num (int w) =
      Fin (real (width prev) * CROP_RATIO st / real w)"
    by (simp add: num_def)
  have "0 < int w" "0 < int h" using bh' bw' sw by arith+
  then have pos: "0 < int w * int h" by (rule mult_pos_pos)
  show ?thesis
    unfolding alignFrames_resized [OF sp sc] hh w_def [symmetric] sw_def [symmetric]
      ep_def [symmetric] ec_def [symmetric] s_def [symmetric]
      alignResult_flat [OF b scs scale pos] ..
qed

lemma resize_solid_64:
  assumes "canvas (solidFrame 64 64 c) (Fin 12.8, Fin 12.8, Fin 38.4, Fin 38.4) 128 128 =
             Some (data (solidFrame 128 128 c'))"
  shows "resizeAndCropImageData SETTINGS canvas (solidFrame 64 64 c)
           (ALIGNMENT_DOWNSAMPLE SETTINGS) = Inr (solidFrame 128 128 c')"
proof -
  have r: "\<lparr>width = 128, height = 128, data = data (solidFrame 128 128 c')\<rparr> =
      solidFrame 128 128 c'"
    by (simp add: solidFrame_def)
  have f: "\<lfloor>(257 :: real) / 2\<rfloor> = 128" by simp
  show ?thesis
    using assms
    by (simp add: resizeAndCropImageData_def SETTINGS_def Let_def num_def r f
        solidFrame_def [of 64 64 c])
qed

lemma alignFrames_solid_64:
  assumes "canvas (solidFrame 64 64 c) (Fin 12.8, Fin 12.8, Fin 38.4, Fin 38.4) 128 128 =
             Some (data (solidFrame 128 128 c'))"
  shows "alignFrames SETTINGS canvas (solidFrame 64 64 c) (solidFrame 64 64 c) =
     Inr \<lparr>off_x = Fin (- 12), off_y = Fin (- 12), confidence = Fin 1\<rparr>"
proof -
  have a: "ALIGNMENT_DOWNSAMPLE SETTINGS = 128" by (simp add: SETTINGS_def)
  have r: "resizeAndCropImageData SETTINGS canvas (solidFrame 64 64 c)
      (ALIGNMENT_DOWNSAMPLE SETTINGS) = Inr (solidFrame (ALIGNMENT_DOWNSAMPLE SETTINGS) 128 c')"
    using resize_solid_64 [where canvas = canvas and c = c and c' = c', OF assms]
    by (simp add: a)
  have b: "2 * (int (SEARCH_WINDOW SETTINGS) + 2) < int 128"
      "2 * (int (SEARCH_WINDOW SETTINGS) + 2) < int (ALIGNMENT_DOWNSAMPLE SETTINGS)"
    by (simp_all add: SETTINGS_def)
  have v: "of_int (- int (SEARCH_WINDOW SETTINGS)) *
      (real (width (solidFrame 64 64 c)) * CROP_RATIO SETTINGS /
         real (ALIGNMENT_DOWNSAMPLE SETTINGS)) = - 12"
    by (simp add: SETTINGS_def solidFrame_def)
  have one: "(1 :: real) \<le> sqrt ((- 12)\<^sup>2 + (- 12)\<^sup>2)"
    by (rule real_le_rsqrt) simp
  have "DRIFT_DEADBAND SETTINGS < 1" by (simp add: SETTINGS_def)
  then have d: "\<not> sqrt ((- 12 :: real)\<^sup>2 + (- 12)\<^sup>2) < DRIFT_DEADBAND SETTINGS"
    using one by linarith
  show ?thesis
    unfolding alignFrames_flat [OF r r b] v using d by (simp only: if_False)
qed

lemma nearestCanvas_solid_64:
  "nearestCanvas (solidFrame 64 64 c) (Fin 12.8, Fin 12.8, Fin 38.4, Fin 38.4) 128 128 =
     Some (data (solidFrame 128 128 c))"
  by (rule nearestCanvas_solid) simp_all

section \<open>Claims\<close>

subsection \<open>C9: the sharpness map\<close>




subsection \<open>C6: debug mode\<close>



subsection \<open>C3: mismatched dimensions\<close>

text \<open>
  Claim C3, as amended. Neither \<open>mergeFocusStack\<close> nor \<open>getFingerprintSimilarity\<close> checks
  dimensions; equal dimensions are the caller's precondition. Given an accumulator whose
  buffers have the accumulator's dimensions, \<open>mergeFocusStack\<close> returns a result of those
  dimensions for a new frame of any dimensions, without an error.
  \<open>getFingerprintSimilarity\<close> always returns a number: it compares the first
  \<open>length fp1\<close> entries, ignores the further entries of a longer \<open>fp2\<close>, and gives NaN when
  \<open>fp2\<close> is shorter than \<open>fp1\<close>.
\<close>

theorem dimensions_are_not_checked:
  "(length (data acc) = 4 * (width acc * height acc) \<longrightarrow>
    length accSharpness = width acc * height acc \<longrightarrow>
    (\<exists>r. mergeFocusStack acc accSharpness newImageData offsetX offsetY sensitivity threshold
            debugMode = Inr r \<and>
          width (imageData r) = width acc \<and> height (imageData r) = height acc \<and>
          length (data (imageData r)) = 4 * (width acc * height acc) \<and>
          length (sharpness r) = width acc * height acc)) \<and>
   (length fp1 \<le> length fp2 \<longrightarrow>
      getFingerprintSimilarity fp1 fp2 = getFingerprintSimilarity fp1 (take (length fp1) fp2)) \<and>
   (length fp2 < length fp1 \<longrightarrow> getFingerprintSimilarity fp1 fp2 = NaN)"
proof (intro conjI impI)
  assume "length (data acc) = 4 * (width acc * height acc)"
    and "length accSharpness = width acc * height acc"
  then show "\<exists>r. mergeFocusStack acc accSharpness newImageData offsetX offsetY sensitivity
            threshold debugMode = Inr r \<and>
          width (imageData r) = width acc \<and> height (imageData r) = height acc \<and>
          length (data (imageData r)) = 4 * (width acc * height acc) \<and>
          length (sharpness r) = width acc * height acc"
    using mergeFocusStack_cells [of acc accSharpness newImageData offsetX offsetY sensitivity
        threshold debugMode] by blast
next
  assume "length fp1 \<le> length fp2"
  then show "getFingerprintSimilarity fp1 fp2 =
      getFingerprintSimilarity fp1 (take (length fp1) fp2)"
    by (rule similarity_ignores_rest)
next
  assume "length fp2 < length fp1"
  then show "getFingerprintSimilarity fp1 fp2 = NaN" by (rule similarity_short_NaN)
qed

theorem dimensions_are_not_checked_witness:
  "(\<exists>r. mergeFocusStack acc1x1 [Fin 0] new2x2 (Fin 0) (Fin 0) (Fin 5) (Fin 20) False = Inr r \<and>
        width (imageData r) = 1 \<and> height (imageData r) = 1) \<and>
   getFingerprintSimilarity [10] [10, 20] = getFingerprintSimilarity [10] [10] \<and>
   getFingerprintSimilarity [10, 20] [10] = NaN"
  using dimensions_are_not_checked [of acc1x1 "[Fin 0]" new2x2 "Fin 0" "Fin 0" "Fin 5" "Fin 20"
      False "[10]" "[10, 20]"]
    dimensions_are_not_checked [of acc1x1 "[Fin 0]" new2x2 "Fin 0" "Fin 0" "Fin 5" "Fin 20"
      False "[10, 20]" "[10]"]
  by (auto simp: acc1x1_def)

theorem dimensions_are_not_checked_counterexample:
  "width acc1x1 = 1 \<and> height acc1x1 = 1 \<and> width new2x2 = 2 \<and> height new2x2 = 2 \<and>
   mergeFocusStack acc1x1 [Fin 0] new2x2 (Fin 0) (Fin 0) (Fin 5) (Fin 20) False =
     Inr \<lparr>imageData = \<lparr>width = 1, height = 1, data = [10, 20, 30, 0]\<rparr>,
          sharpness = [Fin 0]\<rparr> \<and>
   length [10 :: nat] \<noteq> length [10, 20 :: nat] \<and>
   getFingerprintSimilarity [10] [10, 20] = Fin 1"
  by (simp add: merge_eval_mismatch sim_eval) (simp add: acc1x1_def new2x2_def)

subsection \<open>C5: transparent background\<close>




subsection \<open>C10: sharpness never decreases\<close>

text \<open>
  Claim C10, as amended. For every accumulator, new frame and offsets, every threshold
  \<open>\<ge> 0\<close> and every sensitivity \<open>\<ge> 0\<close>, and at every pixel position where the accumulator's
  sharpness is a number (not NaN), the sharpness in the output of \<open>mergeFocusStack\<close> is
  either 0 or at least the accumulator's sharpness there; it is 0 only when the
  accumulator's sharpness there was at most the threshold; and where the accumulator's
  sharpness exceeds the threshold, the merge does not decrease it.
\<close>

theorem mergeFocusStack_sharpness_monotone:
  assumes "length (data acc) = 4 * (width acc * height acc)"
    and "length accSharpness = width acc * height acc"
    and "Fin 0 \<le> sensitivity" and "Fin 0 \<le> threshold"
    and "k < width acc * height acc" and "accSharpness ! k \<noteq> NaN"
  shows "\<exists>r.
     mergeFocusStack acc accSharpness newImageData offsetX offsetY sensitivity threshold
       debugMode = Inr r \<and>
     (sharpness r ! k = Fin 0 \<or> accSharpness ! k \<le> sharpness r ! k) \<and>
     (sharpness r ! k = Fin 0 \<longrightarrow> accSharpness ! k \<le> threshold) \<and>
     (threshold < accSharpness ! k \<longrightarrow> accSharpness ! k \<le> sharpness r ! k)"
proof -
  let ?ns = "computeSharpnessMap (data newImageData) (width acc) (height acc)"
  obtain r where r: "mergeFocusStack acc accSharpness newImageData offsetX offsetY sensitivity
        threshold debugMode = Inr r"
      "\<And>k. k < width acc * height acc \<Longrightarrow>
        (rgba (data (imageData r)) k, sharpness r ! k) =
          mergeCell newImageData ?ns (width acc) (height acc) offsetX offsetY sensitivity
            threshold debugMode (int k div int (width acc)) (int k mod int (width acc))
            (rgba (data acc) k, accSharpness ! k)"
    using mergeFocusStack_cells [OF assms(1,2), of newImageData offsetX offsetY sensitivity
        threshold debugMode] by blast
  define out where "out = sharpness r ! k"
  define old where "old = accSharpness ! k"
  have "out = snd (rgba (data (imageData r)) k, sharpness r ! k)" by (simp add: out_def)
  then have out: "out = snd (mergeCell newImageData ?ns (width acc) (height acc) offsetX
      offsetY sensitivity threshold debugMode (int k div int (width acc))
      (int k mod int (width acc)) (rgba (data acc) k, old))"
    unfolding r(2) [OF assms(5)] old_def .
  have cases: "out = old \<or> (out = Fin 0 \<and> \<not> threshold < old)
      \<or> newWins threshold sensitivity out old"
    unfolding out by (rule mergeCell_sharpness_cases)
  have old: "old \<noteq> NaN" using assms(6) by (simp add: old_def)
  have thr: "threshold \<noteq> NaN" using jle_not_NaN [OF assms(4)] by simp
  have "(out = Fin 0 \<or> old \<le> out) \<and> (out = Fin 0 \<longrightarrow> old \<le> threshold) \<and>
        (threshold < old \<longrightarrow> old \<le> out)"
    using cases
  proof (elim disjE)
    assume "out = old"
    then show ?thesis using old assms(4) jle_refl by auto
  next
    assume "out = Fin 0 \<and> \<not> threshold < old"
    then show ?thesis using not_less_jle [of threshold old] old thr by auto
  next
    assume "newWins threshold sensitivity out old"
    then show ?thesis using newWins_grows [OF _ assms(3,4) old] by auto
  qed
  then show ?thesis using r(1) by (auto simp: out_def old_def)
qed

theorem mergeFocusStack_sharpness_witness:
  "\<exists>r. mergeFocusStack acc1x1 [Fin 30] new1x1 (Fin 0) (Fin 0) (Fin 5) (Fin 20) False = Inr r \<and>
        Fin 30 \<le> sharpness r ! 0"
proof -
  have h: "length (data acc1x1) = 4 * (width acc1x1 * height acc1x1)"
      "length [Fin 30] = width acc1x1 * height acc1x1"
      "Fin 0 \<le> Fin 5" "Fin 0 \<le> Fin 20" "0 < width acc1x1 * height acc1x1"
      "[Fin 30] ! 0 \<noteq> NaN"
    by (simp_all add: acc1x1_def)
  show ?thesis
    using mergeFocusStack_sharpness_monotone [OF h, of new1x1 "Fin 0" "Fin 0" False]
    by auto
qed

theorem mergeFocusStack_sharpness_counterexample:
  "mergeFocusStack acc1x1 [Fin 0] new1x1 (Fin 0) (Fin 0) (Fin 0) (Fin (- 1)) False =
     Inr \<lparr>imageData = \<lparr>width = 1, height = 1, data = [10, 20, 30, 255]\<rparr>,
          sharpness = [Fin 0]\<rparr> \<and>
   \<not> [Fin 0] ! 0 \<le> Fin (- 1) \<and>
   mergeFocusStack acc1x1 [NaN] new1x1 (Fin 0) (Fin 0) (Fin 5) (Fin 20) False =
     Inr \<lparr>imageData = \<lparr>width = 1, height = 1, data = [10, 20, 30, 0]\<rparr>,
          sharpness = [Fin 0]\<rparr> \<and>
   \<not> [NaN] ! 0 \<le> Fin 20"
  by (simp add: merge_eval_neg_threshold merge_eval_NaN less_eq_jsnum_def)

subsection \<open>C2: ties in the exhaustive search\<close>

text \<open>
  Claim C2. The search of \<open>alignFrames\<close> scans the offsets of the window with \<open>dy\<close> outer
  and \<open>dx\<close> inner, both ascending from \<open>- sw\<close>, and replaces its best offset only on a
  strictly smaller score. So whenever an offset \<open>(dx, dy)\<close> of the window attains the
  minimal score \<open>m\<close>, the offset selected has that score and is scanned no later than
  \<open>(dx, dy)\<close>: among several offsets with the identical minimal score the first scanned
  is selected, not the one closest to \<open>(0, 0)\<close>. In the witness all nine offsets tie
  and \<open>(- 1, - 1)\<close> is selected although \<open>(0, 0)\<close> has the same score.
\<close>

theorem alignSearch_first_minimum_in_scan_order:
  assumes "0 \<le> sw"
    and "- sw \<le> dx" "dx \<le> sw" "- sw \<le> dy" "dy \<le> sw"
    and "0 < snd (scoreAt edgePrev edgeCurr wd ht (sw + 2) dx dy)"
    and "fst (scoreAt edgePrev edgeCurr wd ht (sw + 2) dx dy) = Fin m"
    and "\<forall>dx' dy'. - sw \<le> dx' \<and> dx' \<le> sw \<and> - sw \<le> dy' \<and> dy' \<le> sw \<longrightarrow>
           \<not> fst (scoreAt edgePrev edgeCurr wd ht (sw + 2) dx' dy') < Fin m"
  shows "minDiff (alignSearch edgePrev edgeCurr wd ht sw) = Fin m \<and>
     fst (scoreAt edgePrev edgeCurr wd ht (sw + 2)
            (bestX (alignSearch edgePrev edgeCurr wd ht sw))
            (bestY (alignSearch edgePrev edgeCurr wd ht sw))) = Fin m \<and>
     - sw \<le> bestX (alignSearch edgePrev edgeCurr wd ht sw) \<and>
     bestX (alignSearch edgePrev edgeCurr wd ht sw) \<le> sw \<and>
     - sw \<le> bestY (alignSearch edgePrev edgeCurr wd ht sw) \<and>
     bestY (alignSearch edgePrev edgeCurr wd ht sw) \<le> sw \<and>
     (bestY (alignSearch edgePrev edgeCurr wd ht sw) < dy \<or>
      (bestY (alignSearch edgePrev edgeCurr wd ht sw) = dy \<and>
       bestX (alignSearch edgePrev edgeCurr wd ht sw) \<le> dx))"
  using alignSearch_minimum [OF assms] .

theorem alignSearch_first_minimum_witness:
  "fst (scoreAt flat8x8 flat8x8 8 8 3 0 0) = Fin 0 \<and>
   minDiff (alignSearch flat8x8 flat8x8 8 8 1) = Fin 0 \<and>
   bestX (alignSearch flat8x8 flat8x8 8 8 1) = - 1 \<and>
   bestY (alignSearch flat8x8 flat8x8 8 8 1) = - 1"
proof -
  have h: "(0::int) \<le> 1" "- 1 \<le> (- 1 :: int)" "(- 1 :: int) \<le> 1"
      "0 < snd (scoreAt flat8x8 flat8x8 8 8 (1 + 2) (- 1) (- 1))"
      "fst (scoreAt flat8x8 flat8x8 8 8 (1 + 2) (- 1) (- 1)) = Fin 0"
      "\<forall>dx' dy'. - 1 \<le> dx' \<and> dx' \<le> 1 \<and> - 1 \<le> dy' \<and> dy' \<le> 1 \<longrightarrow>
           \<not> fst (scoreAt flat8x8 flat8x8 8 8 (1 + 2) dx' dy') < Fin 0"
    by (simp_all add: scoreAt_flat8x8)
  show ?thesis
    using alignSearch_first_minimum_in_scan_order [OF h(1) h(2) h(3) h(2) h(3) h(4) h(5) h(6)]
    by (auto simp: scoreAt_flat8x8)
qed

subsection \<open>C4: frames too short to sample\<close>



subsection \<open>C1: two identical solid-gray frames\<close>

text \<open>
  Claim C1, as amended. For two identical 64\<times>64 solid-gray frames, which the canvas
  downsamples to a 128\<times>128 frame of one colour, every offset of the search window has
  the score 0, the search keeps the first offset scanned, \<open>(- 40, - 40)\<close>, and
  \<open>alignFrames\<close> returns that offset rescaled by \<open>64 * 0.6 / 128 = 0.3\<close>, that is
  \<open>(- 12, - 12)\<close>, with confidence 1; it does not return \<open>(0, 0)\<close>.
\<close>

theorem alignFrames_identical_solid_gray:
  assumes "canvas (solidFrame 64 64 (g, g, g, 255))
             (Fin 12.8, Fin 12.8, Fin 38.4, Fin 38.4) 128 128 =
           Some (data (solidFrame 128 128 c'))"
  shows "alignFrames SETTINGS canvas (solidFrame 64 64 (g, g, g, 255))
           (solidFrame 64 64 (g, g, g, 255)) =
         Inr \<lparr>off_x = Fin (- 12), off_y = Fin (- 12), confidence = Fin 1\<rparr>"
  using alignFrames_solid_64 [where canvas = canvas and c = "(g, g, g, 255)" and c' = c',
      OF assms] .

theorem alignFrames_identical_solid_gray_witness:
  "alignFrames SETTINGS nearestCanvas (solidFrame 64 64 (128, 128, 128, 255))
     (solidFrame 64 64 (128, 128, 128, 255)) =
   Inr \<lparr>off_x = Fin (- 12), off_y = Fin (- 12), confidence = Fin 1\<rparr>"
  using alignFrames_identical_solid_gray [where canvas = nearestCanvas and g = 128,
      OF nearestCanvas_solid_64] .

theorem alignFrames_identical_solid_gray_counterexample:
  "alignFrames SETTINGS nearestCanvas (solidFrame 64 64 (128, 128, 128, 255))
     (solidFrame 64 64 (128, 128, 128, 255)) \<noteq>
   Inr \<lparr>off_x = Fin 0, off_y = Fin 0, confidence = Fin 1\<rparr>"
  using alignFrames_solid_64 [where canvas = nearestCanvas and c = "(128, 128, 128, 255)",
      OF nearestCanvas_solid_64]
  by simp

subsection \<open>C7: the deadband\<close>



subsection \<open>C8: the confidence\<close>

text \<open>
  Claim C8. For every pair of input frames for which \<open>alignFrames\<close> returns, the
  confidence returned is \<open>max (0, 1 - minDiff / (width * height * 100))\<close> at the
  downsampled size, where \<open>minDiff\<close> is the minimum found by the search: either infinite
  (no offset was scored) or a non-negative number. It lies in the closed interval
  \<open>[0, 1]\<close>.
\<close>

theorem alignFrames_confidence_in_unit_interval:
  assumes "alignFrames st canvas prev cur = Inr r"
  shows "\<exists>smallPrev smallCur m.
     resizeAndCropImageData st canvas prev (ALIGNMENT_DOWNSAMPLE st) = Inr smallPrev \<and>
     resizeAndCropImageData st canvas cur (ALIGNMENT_DOWNSAMPLE st) = Inr smallCur \<and>
     m = minDiff (alignSearch (edgesOf smallPrev (ALIGNMENT_DOWNSAMPLE st))
                    (edgesOf smallCur (ALIGNMENT_DOWNSAMPLE st))
                    (int (ALIGNMENT_DOWNSAMPLE st)) (int (height smallPrev))
                    (int (SEARCH_WINDOW st))) \<and>
     (m = PInf \<or> (\<exists>a. m = Fin a \<and> 0 \<le> a)) \<and>
     confidence r =
       Math_max (Fin 0)
         (Fin 1 - m / num (int (ALIGNMENT_DOWNSAMPLE st) * int (height smallPrev) * 100)) \<and>
     (\<exists>c. confidence r = Fin c \<and> 0 \<le> c \<and> c \<le> 1)"
proof -
  let ?w = "ALIGNMENT_DOWNSAMPLE st" and ?sw = "int (SEARCH_WINDOW st)"
  obtain smallPrev smallCur where
    sp: "resizeAndCropImageData st canvas prev ?w = Inr smallPrev" and
    sc: "resizeAndCropImageData st canvas cur ?w = Inr smallCur" and
    r: "r = alignResult st
           (num (int (width prev)) * Fin (CROP_RATIO st) / num (int ?w))
           (int ?w) (int (height smallPrev))
           (alignSearch (edgesOf smallPrev ?w) (edgesOf smallCur ?w)
              (int ?w) (int (height smallPrev)) ?sw)"
    using alignFrames_Inr [OF assms] by blast
  define s where "s = alignSearch (edgesOf smallPrev ?w) (edgesOf smallCur ?w)
              (int ?w) (int (height smallPrev)) ?sw"
  have m: "minDiff s = PInf \<or>
      (\<exists>a. minDiff s = Fin a \<and> 0 \<le> a \<and>
         ?sw + 2 < int (height smallPrev) - (?sw + 2) \<and> ?sw + 2 < int ?w - (?sw + 2))"
    unfolding s_def by (rule alignSearch_minDiff) simp
  have pos: "0 < int ?w * int (height smallPrev)"
    if "?sw + 2 < int (height smallPrev) - (?sw + 2)" "?sw + 2 < int ?w - (?sw + 2)"
    using that by (intro mult_pos_pos) linarith+
  have m': "minDiff s = PInf \<or>
      (\<exists>a. minDiff s = Fin a \<and> 0 \<le> a \<and> 0 < int ?w * int (height smallPrev))"
    using m pos by blast
  have nn: "0 \<le> int ?w * int (height smallPrev)" by simp
  have c: "confidence r =
       Math_max (Fin 0) (Fin 1 - minDiff s / num (int ?w * int (height smallPrev) * 100)) \<and>
     (\<exists>c. confidence r = Fin c \<and> 0 \<le> c \<and> c \<le> 1)"
    unfolding r s_def [symmetric] by (rule alignResult_confidence [OF m' nn])
  have "minDiff s = PInf \<or> (\<exists>a. minDiff s = Fin a \<and> 0 \<le> a)" using m by blast
  then show ?thesis using sp sc c unfolding s_def by blast
qed

theorem alignFrames_confidence_witness:
  "alignFrames SETTINGS nearestCanvas (solidFrame 64 64 (128, 128, 128, 255))
     (solidFrame 64 64 (128, 128, 128, 255)) =
     Inr \<lparr>off_x = Fin (- 12), off_y = Fin (- 12), confidence = Fin 1\<rparr> \<and>
   (\<exists>c. confidence \<lparr>off_x = Fin (- 12), off_y = Fin (- 12), confidence = Fin 1\<rparr> = Fin c \<and>
        0 \<le> c \<and> c \<le> 1)"
proof -
  have r: "alignFrames SETTINGS nearestCanvas (solidFrame 64 64 (128, 128, 128, 255))
     (solidFrame 64 64 (128, 128, 128, 255)) =
     Inr \<lparr>off_x = Fin (- 12), off_y = Fin (- 12), confidence = Fin 1\<rparr>"
    by (rule alignFrames_solid_64 [where canvas = nearestCanvas
          and c = "(128, 128, 128, 255)", OF nearestCanvas_solid_64])
  show ?thesis using alignFrames_confidence_in_unit_interval [OF r] r by blast
qed

end
